theory Spec2Isabelle
  imports Main "HOL-Library.AList"
begin

section \<open>JavaScript objects as association lists\<close>

text \<open>
  A plain JavaScript object is an association list from property names to values, in
  insertion order, each name occurring once. \<open>obj[name]\<close> is \<^const>\<open>map_of\<close> (a missing
  name reads as \<open>undefined\<close>, here \<open>None\<close>), \<open>obj[name] = v\<close> is \<^const>\<open>AList.update\<close>
  (an existing name keeps its place, a new one goes to the end) and \<open>Object.entries\<close>
  is the list itself. These are the own properties. A read \<open>obj[name]\<close> of a name the
  object does not hold itself goes on to \<open>Object.prototype\<close>; the loops of field-mask.js
  read that way, and \<open>get_prop\<close> below models it.
\<close>

datatype error =
    InvalidArgument
  | IncompatibleMask
  | TypeMismatch
  | NativeTypeError
  | ModelNotFound
  | RegistryNotFound
  | FieldError
  | Unmodelled

section \<open>field-mask.js\<close>

text \<open>
  The backing structure \<open>_fields\<close> of a FieldMask maps a name to \<open>true\<close> or to a nested
  structure of the same shape.
\<close>

datatype fm = FTrue | FObj "(string \<times> fm) list"

type_synonym fields = "(string \<times> fm) list"

datatype FieldMask = FieldMask (mask_fields: fields)

text \<open>\<open>Object.entries(x)\<close> for an entry: the literal \<open>true\<close> has no entries.\<close>

fun entries :: "fm \<Rightarrow> fields" where
  "entries FTrue = []"
| "entries (FObj fs) = fs"

text \<open>
  The string-named properties of \<open>Object.prototype\<close>. All but \<open>__proto__\<close> are functions;
  \<open>__proto__\<close> is an accessor.
\<close>

definition object_prototype_functions :: "string list" where
  "object_prototype_functions =
     [''constructor'', ''hasOwnProperty'', ''isPrototypeOf'',
      ''propertyIsEnumerable'', ''toLocaleString'', ''toString'', ''valueOf'',
      ''__defineGetter__'', ''__defineSetter__'', ''__lookupGetter__'', ''__lookupSetter__'']"

definition object_prototype_names :: "string list" where
  "object_prototype_names = ''__proto__'' # object_prototype_functions"

text \<open>
  What \<open>obj[name]\<close> reads from a plain object, for a name other than \<open>__proto__\<close>: the own
  entry if there is one, else the function that \<open>Object.prototype\<close> defines under the
  name, else \<open>undefined\<close>. The inherited function is not \<open>undefined\<close>, is not \<open>true\<close>, and
  its \<open>typeof\<close> is \<open>'function'\<close>, not \<open>'object'\<close>.
\<close>

datatype property = Undefined | Own fm | Inherited

definition get_prop :: "fields \<Rightarrow> string \<Rightarrow> property" where
  "get_prop obj name =
     (case map_of obj name of
        Some v \<Rightarrow> Own v
      | None \<Rightarrow> if name \<in> set object_prototype_functions then Inherited else Undefined)"

text \<open>
  The accessor \<open>__proto__\<close> is outside the model (its getter returns the prototype object,
  its setter replaces the prototype instead of adding an entry): a loop that meets the key
  \<open>__proto__\<close> gives \<^const>\<open>Unmodelled\<close>.
\<close>

text \<open>
  A well-formed structure holds each of its keys once, at every depth, and no key is a name
  that \<open>Object.prototype\<close> defines.
\<close>

fun wf_fm :: "fm \<Rightarrow> bool" where
  "wf_fm FTrue = True"
| "wf_fm (FObj fs) =
     (distinct (map fst fs) \<and>
      (\<forall>e \<in> set fs. fst e \<notin> set object_prototype_names \<and> wf_fm (snd e)))"

definition wf_fields :: "fields \<Rightarrow> bool" where
  "wf_fields fs = wf_fm (FObj fs)"

definition wf_mask :: "FieldMask \<Rightarrow> bool" where
  "wf_mask m = wf_fields (mask_fields m)"

text \<open>\<open>$isEmpty\<close>: lodash \<open>isEmpty\<close> on the backing object.\<close>

definition isEmpty :: "FieldMask \<Rightarrow> bool" where
  "isEmpty m = (mask_fields m = [])"



text \<open>
  \<open>_merge(fields, otherFields)\<close> when \<open>fields\<close> is an inherited function, which happens when
  the other entry is an object and the name is one of \<open>Object.prototype\<close>. The spread of a
  function has no entries, so \<open>mergedFields\<close> starts empty. Every function has the own
  properties \<open>length\<close>, a number, and \<open>name\<close>, a string: for a leaf under one of these
  names neither test of the leaf branch holds and nothing is added. Any other read from
  the function is outside the model.
\<close>

fun merge_host :: "fields \<Rightarrow> error + fields" where
  "merge_host [] = Inr []"
| "merge_host ((name, otherFields) # rest) =
     (if (name = ''length'' \<or> name = ''name'') \<and> otherFields = FTrue then merge_host rest
      else Inl Unmodelled)"

text \<open>
  \<open>_merge(rootFields, rootOtherFields)\<close> inside \<open>$add\<close>: \<open>mergedFields\<close> starts as a
  copy of \<open>rootFields\<close> and the loop runs over the entries of \<open>rootOtherFields\<close>,
  always reading \<open>rootFields[name]\<close>. For a leaf, an inherited function is neither an
  object nor \<open>undefined\<close>: nothing is added. For a nested entry it is neither \<open>true\<close> nor
  \<open>undefined\<close>: the recursive call is made on the function.
\<close>

fun merge_from :: "fields \<Rightarrow> fields \<Rightarrow> fields \<Rightarrow> error + fields" where
  "merge_from rootFields mergedFields [] = Inr mergedFields"
| "merge_from rootFields mergedFields ((name, otherFields) # rest) =
     (if name = ''__proto__'' then Inl Unmodelled
      else case otherFields of
        FTrue \<Rightarrow>
          (case get_prop rootFields name of
             Own (FObj fs) \<Rightarrow> Inl IncompatibleMask
           | Undefined \<Rightarrow> merge_from rootFields (AList.update name FTrue mergedFields) rest
           | Own FTrue \<Rightarrow> merge_from rootFields mergedFields rest
           | Inherited \<Rightarrow> merge_from rootFields mergedFields rest)
      | FObj other \<Rightarrow>
          (case get_prop rootFields name of
             Own FTrue \<Rightarrow> Inl IncompatibleMask
           | Undefined \<Rightarrow>
               (case merge_from [] [] other of
                  Inl e \<Rightarrow> Inl e
                | Inr m \<Rightarrow> merge_from rootFields (AList.update name (FObj m) mergedFields) rest)
           | Inherited \<Rightarrow>
               (case merge_host other of
                  Inl e \<Rightarrow> Inl e
                | Inr m \<Rightarrow> merge_from rootFields (AList.update name (FObj m) mergedFields) rest)
           | Own (FObj fs) \<Rightarrow>
               (case merge_from fs fs other of
                  Inl e \<Rightarrow> Inl e
                | Inr m \<Rightarrow> merge_from rootFields (AList.update name (FObj m) mergedFields) rest)))"

definition merge :: "fields \<Rightarrow> fields \<Rightarrow> error + fields" where
  "merge rootFields rootOtherFields = merge_from rootFields rootFields rootOtherFields"

definition add :: "FieldMask \<Rightarrow> FieldMask \<Rightarrow> error + FieldMask" where
  "add a b = (case merge (mask_fields a) (mask_fields b) of
                Inl e \<Rightarrow> Inl e
              | Inr m \<Rightarrow> Inr (FieldMask m))"

text \<open>
  \<open>_remove(rootFields, rootOtherFields)\<close> inside \<open>$remove\<close>: the loop runs over the
  entries of \<open>rootFields\<close> and fills \<open>rootRemainingFields\<close>, which starts empty. An
  entry whose counterpart is \<open>true\<close> or an inherited function matches neither branch and
  is left out. The recursive call is made whenever the counterpart is an object: when the
  entry itself is \<open>true\<close>, \<open>Object.entries(true)\<close> is empty and the call returns the empty
  object.
\<close>

fun remove_from :: "fields \<Rightarrow> fields \<Rightarrow> fields \<Rightarrow> error + fields" where
  "remove_from rootRemainingFields [] rootOtherFields = Inr rootRemainingFields"
| "remove_from rootRemainingFields ((name, fs) # rest) rootOtherFields =
     (if name = ''__proto__'' then Inl Unmodelled
      else case get_prop rootOtherFields name of
        Undefined \<Rightarrow> remove_from (AList.update name fs rootRemainingFields) rest rootOtherFields
      | Own FTrue \<Rightarrow> remove_from rootRemainingFields rest rootOtherFields
      | Inherited \<Rightarrow> remove_from rootRemainingFields rest rootOtherFields
      | Own (FObj other) \<Rightarrow>
          (case (case fs of FTrue \<Rightarrow> Inr [] | FObj sub \<Rightarrow> remove_from [] sub other) of
             Inl e \<Rightarrow> Inl e
           | Inr remainingFields \<Rightarrow>
               if remainingFields \<noteq> []
               then remove_from (AList.update name (FObj remainingFields) rootRemainingFields)
                      rest rootOtherFields
               else remove_from rootRemainingFields rest rootOtherFields))"

definition remove :: "FieldMask \<Rightarrow> FieldMask \<Rightarrow> error + FieldMask" where
  "remove a b = (case remove_from [] (mask_fields a) (mask_fields b) of
                   Inl e \<Rightarrow> Inl e
                 | Inr m \<Rightarrow> Inr (FieldMask m))"

text \<open>
  The entry of a structure at a path of names (a path is not empty; it descends through
  nested objects only).
\<close>

fun entry_at :: "fields \<Rightarrow> string list \<Rightarrow> fm option" where
  "entry_at fs [] = None"
| "entry_at fs [name] = map_of fs name"
| "entry_at fs (name # path) =
     (case map_of fs name of Some (FObj sub) \<Rightarrow> entry_at sub path | _ \<Rightarrow> None)"

text \<open>
  The spec's condition for \<open>add\<close> to fail: on some shared path one entry is the leaf
  \<open>true\<close> and the other is a nested object.
\<close>

definition conflict_at :: "fields \<Rightarrow> fields \<Rightarrow> string list \<Rightarrow> bool" where
  "conflict_at a b path =
     ((entry_at a path = Some FTrue \<and> (\<exists>sub. entry_at b path = Some (FObj sub))) \<or>
      ((\<exists>sub. entry_at a path = Some (FObj sub)) \<and> entry_at b path = Some FTrue))"

definition leaf_nested_conflict :: "FieldMask \<Rightarrow> FieldMask \<Rightarrow> bool" where
  "leaf_nested_conflict a b = (\<exists>path. conflict_at (mask_fields a) (mask_fields b) path)"

text \<open>
  The spec's description of the merged entry for one name, from the entries of the two
  masks: a name that only the first mask has passes through unchanged, a leaf met by a
  leaf stays a leaf, and nested entries are merged recursively (a name that only the
  second mask has is merged into the empty object). The two mixed cases are the conflict.
\<close>

fun merged_entry :: "fm option \<Rightarrow> fm option \<Rightarrow> fm option" where
  "merged_entry x None = x"
| "merged_entry None (Some FTrue) = Some FTrue"
| "merged_entry (Some FTrue) (Some FTrue) = Some FTrue"
| "merged_entry None (Some (FObj other)) =
     (case merge [] other of Inr m \<Rightarrow> Some (FObj m) | Inl e \<Rightarrow> None)"
| "merged_entry (Some (FObj fs)) (Some (FObj other)) =
     (case merge fs other of Inr m \<Rightarrow> Some (FObj m) | Inl e \<Rightarrow> None)"
| "merged_entry (Some (FObj fs)) (Some FTrue) = None"
| "merged_entry (Some FTrue) (Some (FObj other)) = None"

section \<open>model.js\<close>

subsection \<open>Values and instances\<close>

text \<open>
  JavaScript values as far as the model engine looks at them. An instance of a Model
  class carries its class (the class is identified by its name, which is what
  \<open>getName()\<close> returns) and the two maps \<open>_fieldValues\<close> and \<open>_savedFieldValues\<close>,
  each \<open>undefined\<close> (\<open>None\<close>) until first written.

  A field that holds a Model holds it by containment: the object graph of an instance is
  a tree, and a change made to a submodel is a change of the value stored in the field of
  its owner. Graphs with sharing or cycles are outside the model.
\<close>

datatype jsval =
    VUndefined
  | VNull
  | VBool bool
  | VNum int
  | VStr string
  | VArr "jsval list"
  | VObj "(string \<times> jsval) list"
  | VModel model
and model =
    Model (cls: string)
          (fieldValues: "(string \<times> jsval) list option")
          (savedFieldValues: "(string \<times> jsval) list option")

fun typeof :: "jsval \<Rightarrow> string" where
  "typeof VUndefined = ''undefined''"
| "typeof VNull = ''object''"
| "typeof (VBool b) = ''boolean''"
| "typeof (VNum n) = ''number''"
| "typeof (VStr s) = ''string''"
| "typeof (VArr xs) = ''object''"
| "typeof (VObj es) = ''object''"
| "typeof (VModel m) = ''object''"

fun truthy :: "jsval \<Rightarrow> bool" where
  "truthy VUndefined = False"
| "truthy VNull = False"
| "truthy (VBool b) = b"
| "truthy (VNum n) = (n \<noteq> 0)"
| "truthy (VStr s) = (s \<noteq> [])"
| "truthy (VArr xs) = True"
| "truthy (VObj es) = True"
| "truthy (VModel m) = True"

text \<open>
  \<open>value?.isOfType && value.isOfType('Model')\<close>: the test for being an instance of
  a Model class. Plain objects are taken not to carry a property named \<open>isOfType\<close>.
\<close>

fun is_model :: "jsval \<Rightarrow> bool" where
  "is_model (VModel m) = True"
| "is_model v = False"

subsection \<open>Field descriptors and classes\<close>

text \<open>
  The default of a field is a value or a function called with the instance as \<open>this\<close>,
  which may again return a function. The chain may be infinite.
\<close>

codatatype dflt = DValue jsval | DFunc "model \<Rightarrow> dflt"

datatype include_fields = IncludeAll | IncludeNames "string list" | IncludeNone

record serialize_options =
  includeFields :: include_fields
  includeChangedFields :: bool
  includeUndefinedFields :: bool
  includeOwnedFields :: bool

text \<open>
  The Field class (\<open>./field\<close>) is not part of the sources. A descriptor holds what the
  engine reads from it, and its two operations are taken as they are given:
  \<open>createValue(value, owner, {isDeserializing})\<close> and \<open>serializeValue(value, options)\<close>,
  either of which may throw.
\<close>

record field =
  fname :: string
  serializedName :: "string option"
  fdefault :: dflt
  isOwned :: bool
  createValue :: "jsval \<Rightarrow> model \<Rightarrow> bool \<Rightarrow> error + jsval"
  serializeValue :: "jsval \<Rightarrow> serialize_options \<Rightarrow> error + jsval"

text \<open>
  A class: the names found above it on its prototype chain, its registry of fields
  \<open>_fields\<close> in declaration order (inherited fields included, each name once), and the
  type registry \<open>$registry\<close> it sees, from type tags to classes.
\<close>

record model_class =
  ancestors :: "string list"
  cfields :: "field list"
  registry :: "(string \<times> string) list option"

type_synonym class_table = "string \<Rightarrow> model_class"

text \<open>\<open>getField\<close>: \<open>this._fields?.[name]\<close>.\<close>

definition getField :: "class_table \<Rightarrow> string \<Rightarrow> string \<Rightarrow> field option" where
  "getField tab c n = find (\<lambda>f. fname f = n) (cfields (tab c))"

text \<open>\<open>field.serializedName || field.name\<close>: an empty string is falsy.\<close>

definition wire_name :: "field \<Rightarrow> string" where
  "wire_name f = (case serializedName f of
                    None \<Rightarrow> fname f
                  | Some s \<Rightarrow> if s = [] then fname f else s)"

text \<open>\<open>getFieldBySerializedName\<close>: the first field, in declaration order, that matches.\<close>

definition getFieldBySerializedName :: "class_table \<Rightarrow> string \<Rightarrow> string \<Rightarrow> field option" where
  "getFieldBySerializedName tab c n = find (\<lambda>f. wire_name f = n) (cfields (tab c))"

text \<open>
  \<open>isOfType\<close>: \<open>'Model'\<close> always matches; otherwise the walk compares the names of the
  class, of the classes above it and, at the end of the chain, of \<open>Function.prototype\<close>,
  whose name is the empty string.
\<close>

definition isOfType :: "class_table \<Rightarrow> model \<Rightarrow> string \<Rightarrow> bool" where
  "isOfType tab this n =
     (if n = ''Model'' then True
      else n \<in> set (cls this # ancestors (tab (cls this)) @ [''Model'', '''']))"

text \<open>\<open>_getModel\<close> with \<open>_getRegistry\<close>, called on class \<open>c\<close>.\<close>

definition getModel :: "class_table \<Rightarrow> string \<Rightarrow> string \<Rightarrow> error + string" where
  "getModel tab c n =
     (case registry (tab c) of
        None \<Rightarrow> Inl RegistryNotFound
      | Some r \<Rightarrow> (case map_of r n of None \<Rightarrow> Inl ModelNotFound | Some c' \<Rightarrow> Inr c'))"

subsection \<open>Field values and snapshots\<close>

definition getFieldValue :: "model \<Rightarrow> field \<Rightarrow> jsval" where
  "getFieldValue this f =
     (case fieldValues this of
        None \<Rightarrow> VUndefined
      | Some fv \<Rightarrow> (case map_of fv (fname f) of None \<Rightarrow> VUndefined | Some v \<Rightarrow> v))"

text \<open>\<open>_saveFieldValue\<close>: the assignment to the snapshot map is unconditional.\<close>

definition saveFieldValue :: "model \<Rightarrow> field \<Rightarrow> model" where
  "saveFieldValue this f =
     Model (cls this) (fieldValues this)
       (Some (AList.update (fname f) (getFieldValue this f)
                (case savedFieldValues this of None \<Rightarrow> [] | Some sv \<Rightarrow> sv)))"

text \<open>
  \<open>_setFieldValue\<close>. When \<open>createValue\<close> throws, the exception leaves the method and
  the result is the error.
\<close>

definition setFieldValue :: "model \<Rightarrow> field \<Rightarrow> jsval \<Rightarrow> bool \<Rightarrow> error + model" where
  "setFieldValue this f v isDeserializing =
     (let this1 = (if \<not> isDeserializing then saveFieldValue this f else this)
      in case createValue f v this1 isDeserializing of
           Inl e \<Rightarrow> Inl e
         | Inr v' \<Rightarrow>
             Inr (Model (cls this1)
                    (Some (AList.update (fname f) v'
                             (case fieldValues this1 of None \<Rightarrow> [] | Some fv \<Rightarrow> fv)))
                    (savedFieldValues this1)))"

subsection \<open>Construction\<close>

text \<open>
  The \<open>while (typeof value === 'function')\<close> loop of \<open>_applyDefaults\<close>. It need not end:
  \<open>None\<close> is the loop that runs forever.
\<close>

partial_function (option) resolve_default :: "model \<Rightarrow> dflt \<Rightarrow> jsval option" where
  "resolve_default this d =
     (case d of DValue v \<Rightarrow> Some v | DFunc g \<Rightarrow> resolve_default this (g this))"

text \<open>\<open>_applyDefaults\<close>: the callback given to \<open>forEachField\<close> always returns \<open>undefined\<close>.\<close>

fun applyDefaults_fields :: "model \<Rightarrow> field list \<Rightarrow> (error + model) option" where
  "applyDefaults_fields this [] = Some (Inr this)"
| "applyDefaults_fields this (f # fs) =
     (case fdefault f of
        DValue VUndefined \<Rightarrow> applyDefaults_fields this fs
      | _ \<Rightarrow>
          if getFieldValue this f \<noteq> VUndefined then applyDefaults_fields this fs
          else (case resolve_default this (fdefault f) of
                  None \<Rightarrow> None
                | Some v \<Rightarrow>
                    if v = VUndefined then applyDefaults_fields this fs
                    else (case setFieldValue this f v False of
                            Inl e \<Rightarrow> Some (Inl e)
                          | Inr this' \<Rightarrow> applyDefaults_fields this' fs)))"

definition applyDefaults :: "class_table \<Rightarrow> model \<Rightarrow> (error + model) option" where
  "applyDefaults tab this = applyDefaults_fields this (cfields (tab (cls this)))"

text \<open>The loop of the constructor over \<open>Object.entries(object)\<close>.\<close>

fun populate :: "class_table \<Rightarrow> bool \<Rightarrow> model \<Rightarrow> (string \<times> jsval) list \<Rightarrow> error + model" where
  "populate tab isDeserializing this [] = Inr this"
| "populate tab isDeserializing this ((n, v) # rest) =
     (case (if isDeserializing then getFieldBySerializedName tab (cls this) n
            else getField tab (cls this) n) of
        None \<Rightarrow> populate tab isDeserializing this rest
      | Some f \<Rightarrow>
          (case setFieldValue this f v isDeserializing of
             Inl e \<Rightarrow> Inl e
           | Inr this' \<Rightarrow> populate tab isDeserializing this' rest))"

text \<open>
  The constructor \<open>new C(object, {isDeserializing})\<close>, first for an input whose \<open>_type\<close>
  is \<open>undefined\<close>. \<open>None\<close> is a constructor that does not return. Reading \<open>_type\<close> of
  \<open>null\<close> throws a native TypeError. An instance has no property \<open>_type\<close> (no field is
  taken to have this name), so a Model given as input goes to the type check and is
  returned as it is. A plain object with a truthy \<open>isOfType\<close> makes the call
  \<open>object.isOfType('Model')\<close> fail, since the values here are not functions. Arrays
  and type tags that are not strings are not modelled.
\<close>

definition finish :: "class_table \<Rightarrow> bool \<Rightarrow> model \<Rightarrow> (error + model) option" where
  "finish tab isDeserializing this =
     (if \<not> isDeserializing then applyDefaults tab this else Some (Inr this))"

definition construct_untagged ::
  "class_table \<Rightarrow> string \<Rightarrow> jsval \<Rightarrow> bool \<Rightarrow> (error + model) option" where
  "construct_untagged tab c object isDeserializing =
     (case object of
        VUndefined \<Rightarrow> finish tab isDeserializing (Model c None None)
      | VNull \<Rightarrow> Some (Inl NativeTypeError)
      | VArr xs \<Rightarrow> Some (Inl Unmodelled)
      | VModel m \<Rightarrow>
          if \<not> isOfType tab m c then Some (Inl TypeMismatch) else Some (Inr m)
      | VObj es \<Rightarrow>
          if truthy (case map_of es ''isOfType'' of None \<Rightarrow> VUndefined | Some p \<Rightarrow> p)
          then Some (Inl NativeTypeError)
          else (case populate tab isDeserializing (Model c None None) es of
                  Inl e \<Rightarrow> Some (Inl e)
                | Inr this \<Rightarrow> finish tab isDeserializing this)
      | _ \<Rightarrow> Some (Inl TypeMismatch))"

text \<open>
  The whole constructor. With a type tag, the class is looked up in the registry and the
  constructor is entered again on that class with the tag stripped; the instance it
  returns then goes through the type check against \<open>c\<close>.
\<close>

definition construct ::
  "class_table \<Rightarrow> string \<Rightarrow> jsval \<Rightarrow> bool \<Rightarrow> (error + model) option" where
  "construct tab c object isDeserializing =
     (if object \<noteq> VUndefined \<and> typeof object \<noteq> ''object'' then Some (Inl TypeMismatch)
      else case object of
        VObj es \<Rightarrow>
          (case map_of es ''_type'' of
             None \<Rightarrow> construct_untagged tab c object isDeserializing
           | Some VUndefined \<Rightarrow> construct_untagged tab c object isDeserializing
           | Some (VStr tag) \<Rightarrow>
               (case getModel tab c tag of
                  Inl e \<Rightarrow> Some (Inl e)
                | Inr c' \<Rightarrow>
                    (case construct_untagged tab c' (VObj (AList.delete ''_type'' es))
                            isDeserializing of
                       None \<Rightarrow> None
                     | Some (Inl e) \<Rightarrow> Some (Inl e)
                     | Some (Inr m) \<Rightarrow>
                         if \<not> isOfType tab m c then Some (Inl TypeMismatch)
                         else Some (Inr m)))
           | Some t \<Rightarrow> Some (Inl Unmodelled))
      | _ \<Rightarrow> construct_untagged tab c object isDeserializing)"

text \<open>\<open>deserialize\<close>: \<open>new this(object, {isDeserializing: true})\<close>.\<close>

definition deserialize :: "class_table \<Rightarrow> string \<Rightarrow> jsval \<Rightarrow> (error + model) option" where
  "deserialize tab c object = construct tab c object True"


subsection \<open>Submodels\<close>

text \<open>
  Modelled from the spec: \<open>findFromOneOrMany\<close>, imported from the package
  \<open>@superstore/util\<close>, which is not part of the sources. The spec gives its contract:
  it "applies a predicate to a single value or to each element of an array,
  short-circuiting on the first defined result". What it hands back is the element at
  which the search stopped (\<open>undefined\<close> when it did not stop): the caller in
  \<open>fieldIsChanged\<close> binds the result to \<open>changedValue\<close> and only tests it against
  \<open>undefined\<close>.

  The predicates that model.js passes change the submodels they are applied to, so the
  predicate here returns the element as it is after the call together with its result,
  and the helper returns the value with the visited elements replaced. An exception
  thrown by the predicate ends the search.
\<close>

fun findFromOneOrMany_elems ::
  "jsval list \<Rightarrow> (jsval \<Rightarrow> error + jsval \<times> jsval) \<Rightarrow> error + jsval list \<times> jsval" where
  "findFromOneOrMany_elems [] func = Inr ([], VUndefined)"
| "findFromOneOrMany_elems (x # xs) func =
     (case func x of
        Inl e \<Rightarrow> Inl e
      | Inr (x', r) \<Rightarrow>
          if r \<noteq> VUndefined then Inr (x' # xs, x')
          else (case findFromOneOrMany_elems xs func of
                  Inl e \<Rightarrow> Inl e
                | Inr (xs', found) \<Rightarrow> Inr (x' # xs', found)))"

definition findFromOneOrMany ::
  "jsval \<Rightarrow> (jsval \<Rightarrow> error + jsval \<times> jsval) \<Rightarrow> error + jsval \<times> jsval" where
  "findFromOneOrMany v func =
     (case v of
        VArr xs \<Rightarrow>
          (case findFromOneOrMany_elems xs func of
             Inl e \<Rightarrow> Inl e
           | Inr (xs', found) \<Rightarrow> Inr (VArr xs', found))
      | _ \<Rightarrow>
          (case func v of
             Inl e \<Rightarrow> Inl e
           | Inr (v', r) \<Rightarrow> Inr (v', if r \<noteq> VUndefined then v' else VUndefined)))"

text \<open>
  The predicate that \<open>forEachSubmodel\<close> builds from its argument \<open>func\<close>: on a Model
  it is \<open>func(value) !== undefined\<close>, a boolean; on anything else the arrow function
  falls off its end.
\<close>

definition submodel_finder ::
  "(model \<Rightarrow> error + model \<times> jsval) \<Rightarrow> jsval \<Rightarrow> error + jsval \<times> jsval" where
  "submodel_finder func v =
     (case v of
        VModel s \<Rightarrow>
          (case func s of
             Inl e \<Rightarrow> Inl e
           | Inr (s', r) \<Rightarrow> Inr (VModel s', VBool (r \<noteq> VUndefined)))
      | _ \<Rightarrow> Inr (v, VUndefined))"

text \<open>
  In the source a submodel is changed in place. Here the value read from a field is put
  back into the field after the visit. A field that holds nothing holds no submodel and
  is left as it is.
\<close>

definition store_back :: "model \<Rightarrow> field \<Rightarrow> jsval \<Rightarrow> model" where
  "store_back this f v =
     (case fieldValues this of
        None \<Rightarrow> this
      | Some fv \<Rightarrow>
          (case map_of fv (fname f) of
             None \<Rightarrow> this
           | Some old \<Rightarrow>
               Model (cls this) (Some (AList.update (fname f) v fv)) (savedFieldValues this)))"

text \<open>
  \<open>forEachSubmodel(func)\<close>: \<open>forEachField\<close> over the registry of the class, returning at
  the first field for which the helper returns something defined. The values are read
  from the instance as it was when the loop started: the registry holds each field name
  once, so no field is read after it has been written.
\<close>

fun forEachSubmodel_fields ::
  "(model \<Rightarrow> error + model \<times> jsval) \<Rightarrow> model \<Rightarrow> model \<Rightarrow> field list \<Rightarrow> error + model \<times> jsval" where
  "forEachSubmodel_fields func this acc [] = Inr (acc, VUndefined)"
| "forEachSubmodel_fields func this acc (f # fs) =
     (case findFromOneOrMany (getFieldValue this f) (submodel_finder func) of
        Inl e \<Rightarrow> Inl e
      | Inr (v', r) \<Rightarrow>
          if r \<noteq> VUndefined then Inr (store_back acc f v', r)
          else forEachSubmodel_fields func this (store_back acc f v') fs)"

definition forEachSubmodel ::
  "class_table \<Rightarrow> (model \<Rightarrow> error + model \<times> jsval) \<Rightarrow> model \<Rightarrow> error + model \<times> jsval" where
  "forEachSubmodel tab func this =
     forEachSubmodel_fields func this this (cfields (tab (cls this)))"

text \<open>The submodels an instance holds directly, for the termination of the recursions.\<close>

definition values_of :: "(string \<times> jsval) list option \<Rightarrow> jsval set" where
  "values_of fv = (case fv of None \<Rightarrow> {} | Some es \<Rightarrow> snd ` set es)"

definition submodels_in :: "jsval \<Rightarrow> model set" where
  "submodels_in v = (case v of VModel s \<Rightarrow> {s} | VArr xs \<Rightarrow> {s. VModel s \<in> set xs} | _ \<Rightarrow> {})"

definition submodels :: "model \<Rightarrow> model set" where
  "submodels this = (\<Union>v \<in> values_of (fieldValues this). submodels_in v)"

lemma findFromOneOrMany_elems_cong:
  "(\<And>x. x \<in> set xs \<Longrightarrow> f x = g x) \<Longrightarrow> findFromOneOrMany_elems xs f = findFromOneOrMany_elems xs g"
  by (induction xs) (auto split: sum.splits prod.splits)

lemma submodel_finder_cong:
  "(\<And>s. s \<in> submodels_in v \<Longrightarrow> f s = g s) \<Longrightarrow> submodel_finder f v = submodel_finder g v"
  by (cases v) (auto simp: submodel_finder_def submodels_in_def)

lemma findFromOneOrMany_finder_cong:
  "(\<And>s. s \<in> submodels_in v \<Longrightarrow> f s = g s) \<Longrightarrow>
   findFromOneOrMany v (submodel_finder f) = findFromOneOrMany v (submodel_finder g)"
proof (cases v)
  case (VArr xs)
  assume h: "\<And>s. s \<in> submodels_in v \<Longrightarrow> f s = g s"
  have "findFromOneOrMany_elems xs (submodel_finder f) = findFromOneOrMany_elems xs (submodel_finder g)"
  proof (rule findFromOneOrMany_elems_cong)
    fix x assume "x \<in> set xs"
    with h VArr show "submodel_finder f x = submodel_finder g x"
      by (cases x) (auto simp: submodel_finder_def submodels_in_def)
  qed
  with VArr show ?thesis by (simp add: findFromOneOrMany_def)
qed (auto simp: findFromOneOrMany_def submodel_finder_def submodels_in_def)

lemma getFieldValue_submodels:
  "s \<in> submodels_in (getFieldValue this f) \<Longrightarrow> s \<in> submodels this"
  by (auto simp: getFieldValue_def submodels_def values_of_def submodels_in_def
           split: option.splits dest!: map_of_SomeD) force+

lemma forEachSubmodel_fields_cong:
  "(\<And>s. s \<in> submodels this \<Longrightarrow> f s = g s) \<Longrightarrow>
   forEachSubmodel_fields f this acc fs = forEachSubmodel_fields g this acc fs"
proof (induction fs arbitrary: acc)
  case Nil
  show ?case by simp
next
  case (Cons a fs)
  have "findFromOneOrMany (getFieldValue this a) (submodel_finder f) =
        findFromOneOrMany (getFieldValue this a) (submodel_finder g)"
    by (rule findFromOneOrMany_finder_cong) (auto dest: getFieldValue_submodels intro: Cons.prems)
  with Cons.IH[OF Cons.prems] show ?case by (auto split: sum.splits)
qed

lemma forEachSubmodel_cong [fundef_cong]:
  "tab = tab' \<Longrightarrow> this = this' \<Longrightarrow> (\<And>s. s \<in> submodels this' \<Longrightarrow> f s = g s) \<Longrightarrow>
   forEachSubmodel tab f this = forEachSubmodel tab' g this'"
  unfolding forEachSubmodel_def by (auto intro: forEachSubmodel_fields_cong)

lemma size_submodels_in: "s \<in> submodels_in v \<Longrightarrow> size s < Suc (size v)"
  by (cases v) (auto simp: submodels_in_def dest!: size_list_estimation'[where f=size and y="size (VModel s)"] )


lemma size_submodels: "s \<in> submodels this \<Longrightarrow> size s < size this"
proof -
  assume "s \<in> submodels this"
  then obtain es v where fv: "fieldValues this = Some es" and v: "v \<in> snd ` set es"
    and s: "s \<in> submodels_in v"
    by (auto simp: submodels_def values_of_def split: option.splits)
  from v obtain k where "(k, v) \<in> set es" by auto
  then have "size v \<le> size_list (size_prod (\<lambda>_. 0) size) es"
    by (induction es) auto
  with size_submodels_in[OF s] fv show ?thesis by (cases this) auto
qed

text \<open>
  The first half of \<open>rollback\<close>: every snapshot is written back into \<open>_fieldValues\<close>
  and the snapshot map is dropped. Writing into \<open>_fieldValues\<close> when it is still
  \<open>undefined\<close> is a native TypeError.
\<close>

definition restore :: "model \<Rightarrow> error + model" where
  "restore this =
     (case savedFieldValues this of
        None \<Rightarrow> Inr this
      | Some sv \<Rightarrow>
          (case fieldValues this of
             None \<Rightarrow> if sv = [] then Inr (Model (cls this) None None) else Inl NativeTypeError
           | Some fv \<Rightarrow>
               Inr (Model (cls this)
                      (Some (foldl (\<lambda>acc e. AList.update (fst e) (snd e) acc) fv sv)) None)))"

lemma set_foldl_update:
  "snd ` set (foldl (\<lambda>acc e. AList.update (fst e) (snd e) acc) fv sv) \<subseteq> snd ` set fv \<union> snd ` set sv"
proof (induction sv arbitrary: fv)
  case Nil
  show ?case by simp
next
  case (Cons e sv)
  have "snd ` set (AList.update (fst e) (snd e) fv) \<subseteq> snd ` set fv \<union> {snd e}"
    by (induction fv) auto
  with Cons.IH[of "AList.update (fst e) (snd e) fv"] show ?case by auto
qed

lemma size_value_in: "(k, v) \<in> set es \<Longrightarrow> size v \<le> size_list (size_prod (\<lambda>_. 0) size) es"
  by (induction es) auto

lemma size_submodels_restore:
  assumes "restore this = Inr this1" and "s \<in> submodels this1"
  shows "size s < size this"
proof (cases "savedFieldValues this")
  case None
  with assms(1) have "this1 = this" by (simp add: restore_def)
  with assms(2) show ?thesis by (simp add: size_submodels)
next
  case (Some sv)
  show ?thesis
  proof (cases "fieldValues this")
    case None
    with Some assms(1) have "fieldValues this1 = None"
      by (auto simp: restore_def split: if_splits)
    with assms(2) show ?thesis by (simp add: submodels_def values_of_def)
  next
    case fv: (Some fv)
    with Some assms(1) have
      "fieldValues this1 = Some (foldl (\<lambda>acc e. AList.update (fst e) (snd e) acc) fv sv)"
      by (auto simp: restore_def)
    with assms(2) obtain v where
      v: "v \<in> snd ` set (foldl (\<lambda>acc e. AList.update (fst e) (snd e) acc) fv sv)"
      and s: "s \<in> submodels_in v"
      by (auto simp: submodels_def values_of_def)
    from v set_foldl_update[of fv sv] have "v \<in> snd ` set fv \<union> snd ` set sv" by blast
    then obtain k es where es: "es = fv \<or> es = sv" and mem: "(k, v) \<in> set es" by fastforce
    from size_value_in[OF mem] size_submodels_in[OF s]
    have "size s < Suc (size_list (size_prod (\<lambda>_. 0) size) es)" by simp
    with es Some fv show ?thesis by (cases this) auto
  qed
qed

subsection \<open>Change tracking\<close>

function commit :: "class_table \<Rightarrow> model \<Rightarrow> error + model" where
  "commit tab (Model c fv sv) =
     (case forEachSubmodel tab
             (\<lambda>submodel. case commit tab submodel of
                            Inl e \<Rightarrow> Inl e
                          | Inr s' \<Rightarrow> Inr (s', VUndefined))
             (Model c fv None) of
        Inl e \<Rightarrow> Inl e
      | Inr (this', r) \<Rightarrow> Inr this')"
  by pat_completeness auto
termination
proof (relation "measure (\<lambda>(tab, this). size this)")
  fix tab :: class_table and c fv sv and s :: model
  assume "s \<in> submodels (Model c fv None)"
  then have "s \<in> submodels (Model c fv sv)" by (simp add: submodels_def)
  from size_submodels[OF this]
  show "((tab, s), (tab, Model c fv sv)) \<in> measure (\<lambda>(tab, this). size this)"
    by simp
qed simp

function rollback :: "class_table \<Rightarrow> model \<Rightarrow> error + model" where
  "rollback tab (Model c fv sv) =
     (case restore (Model c fv sv) of
        Inl e \<Rightarrow> Inl e
      | Inr this1 \<Rightarrow>
          (case forEachSubmodel tab
                  (\<lambda>submodel. case rollback tab submodel of
                                 Inl e \<Rightarrow> Inl e
                               | Inr s' \<Rightarrow> Inr (s', VUndefined))
                  this1 of
             Inl e \<Rightarrow> Inl e
           | Inr (this2, r) \<Rightarrow> Inr this2))"
  by pat_completeness auto
termination
proof (relation "measure (\<lambda>(tab, this). size this)")
  fix tab :: class_table and c fv sv and this1 s :: model
  assume "restore (Model c fv sv) = Inr this1" and "s \<in> submodels this1"
  from size_submodels_restore[OF this]
  show "((tab, s), (tab, Model c fv sv)) \<in> measure (\<lambda>(tab, this). size this)"
    by simp
qed simp


text \<open>\<open>_isChanged\<close>, and \<open>isChanged\<close>, which compares its result with \<open>true\<close>.\<close>

function isChanged_raw :: "class_table \<Rightarrow> model \<Rightarrow> error + jsval" where
  "isChanged_raw tab (Model c fv sv) =
     (if sv \<noteq> None then Inr (VBool True)
      else (case forEachSubmodel tab
                   (\<lambda>submodel. case isChanged_raw tab submodel of
                                  Inl e \<Rightarrow> Inl e
                                | Inr r \<Rightarrow> Inr (submodel, r))
                   (Model c fv sv) of
              Inl e \<Rightarrow> Inl e
            | Inr (this', r) \<Rightarrow> Inr r))"
  by pat_completeness auto
termination
proof (relation "measure (\<lambda>(tab, this). size this)")
  fix tab :: class_table and c fv sv and s :: model
  assume "s \<in> submodels (Model c fv sv)"
  from size_submodels[OF this]
  show "((tab, s), (tab, Model c fv sv)) \<in> measure (\<lambda>(tab, this). size this)"
    by simp
qed simp

definition isChanged :: "class_table \<Rightarrow> model \<Rightarrow> error + bool" where
  "isChanged tab this =
     (case isChanged_raw tab this of Inl e \<Rightarrow> Inl e | Inr r \<Rightarrow> Inr (r = VBool True))"

definition fieldIsChanged :: "class_table \<Rightarrow> model \<Rightarrow> field \<Rightarrow> error + bool" where
  "fieldIsChanged tab this f =
     (if (case savedFieldValues this of None \<Rightarrow> False | Some sv \<Rightarrow> map_of sv (fname f) \<noteq> None)
      then Inr True
      else if getFieldValue this f \<noteq> VUndefined
      then (case findFromOneOrMany (getFieldValue this f)
                   (\<lambda>v. case v of
                           VModel s \<Rightarrow>
                             (case isChanged tab s of
                                Inl e \<Rightarrow> Inl e
                              | Inr b \<Rightarrow> Inr (v, VBool b))
                         | _ \<Rightarrow> Inr (v, VUndefined)) of
              Inl e \<Rightarrow> Inl e
            | Inr (v', changedValue) \<Rightarrow> Inr (changedValue \<noteq> VUndefined))
      else Inr False)"


subsection \<open>Serialization\<close>

definition field_selected ::
  "class_table \<Rightarrow> model \<Rightarrow> serialize_options \<Rightarrow> field \<Rightarrow> error + bool" where
  "field_selected tab this opts f =
     (if includeFields opts = IncludeAll then Inr True
      else if (case includeFields opts of IncludeNames ns \<Rightarrow> fname f \<in> set ns | _ \<Rightarrow> False)
      then Inr True
      else if includeChangedFields opts
      then (case fieldIsChanged tab this f of
              Inl e \<Rightarrow> Inl e
            | Inr b \<Rightarrow> Inr (b \<or> (includeOwnedFields opts \<and> isOwned f)))
      else Inr (includeOwnedFields opts \<and> isOwned f))"

fun serialize_fields ::
  "class_table \<Rightarrow> model \<Rightarrow> serialize_options \<Rightarrow> (string \<times> jsval) list \<Rightarrow> field list \<Rightarrow>
   error + (string \<times> jsval) list" where
  "serialize_fields tab this opts result [] = Inr result"
| "serialize_fields tab this opts result (f # fs) =
     (case field_selected tab this opts f of
        Inl e \<Rightarrow> Inl e
      | Inr False \<Rightarrow> serialize_fields tab this opts result fs
      | Inr True \<Rightarrow>
          (case serializeValue f (getFieldValue this f) opts of
             Inl e \<Rightarrow> Inl e
           | Inr v \<Rightarrow>
               if v \<noteq> VUndefined
               then serialize_fields tab this opts (AList.update (wire_name f) v result) fs
               else serialize_fields tab this opts result fs))"

definition serialize :: "class_table \<Rightarrow> model \<Rightarrow> serialize_options \<Rightarrow> error + jsval" where
  "serialize tab this opts =
     (case serialize_fields tab this opts [(''_type'', VStr (cls this))]
             (cfields (tab (cls this))) of
        Inl e \<Rightarrow> Inl e
      | Inr result \<Rightarrow> Inr (VObj result))"

text \<open>\<open>serialize()\<close> without argument: \<open>includeFields\<close> is \<open>true\<close>, the other options are unset.\<close>

definition default_options :: serialize_options where
  "default_options =
     \<lparr>includeFields = IncludeAll, includeChangedFields = False,
      includeUndefinedFields = False, includeOwnedFields = False\<rparr>"

subsection \<open>Instances without pending changes\<close>

text \<open>
  An instance as deserialization leaves it: neither it nor any Model inside its field
  values has a snapshot.
\<close>

fun fresh_value :: "jsval \<Rightarrow> bool"
  and fresh_model :: "model \<Rightarrow> bool" where
  "fresh_value (VModel m) = fresh_model m"
| "fresh_value (VArr xs) = (\<forall>x \<in> set xs. fresh_value x)"
| "fresh_value (VObj es) = (\<forall>e \<in> set es. fresh_value (snd e))"
| "fresh_value v = True"
| "fresh_model (Model c fv sv) =
     (sv = None \<and> (case fv of None \<Rightarrow> True | Some es \<Rightarrow> \<forall>e \<in> set es. fresh_value (snd e)))"

text \<open>
  The same value with every snapshot forgotten, to compare a value before and after an
  operation that only touches the change tracking of the submodels inside it.
\<close>

fun forget :: "jsval \<Rightarrow> jsval"
  and forget_model :: "model \<Rightarrow> model" where
  "forget (VModel m) = VModel (forget_model m)"
| "forget (VArr xs) = VArr (map forget xs)"
| "forget (VObj es) = VObj (map (\<lambda>e. (fst e, forget (snd e))) es)"
| "forget v = v"
| "forget_model (Model c fv sv) =
     Model c (case fv of None \<Rightarrow> None | Some es \<Rightarrow> Some (map (\<lambda>e. (fst e, forget (snd e))) es)) None"

subsection \<open>Example classes\<close>

text \<open>
  A field whose \<open>createValue\<close> and \<open>serializeValue\<close> hand the value through, and a
  few classes built from such fields: \<open>Parent\<close> with two fields, \<open>Child\<close> with one,
  and \<open>Counter\<close> whose field \<open>n\<close> has a default given as a function that returns a
  function that returns \<open>5\<close>.
\<close>

definition plain_field :: "string \<Rightarrow> field" where
  "plain_field n =
     \<lparr>fname = n, serializedName = None, fdefault = DValue VUndefined, isOwned = False,
      createValue = (\<lambda>v owner isDeserializing. Inr v),
      serializeValue = (\<lambda>v opts. Inr v)\<rparr>"

definition example_registry :: "(string \<times> string) list" where
  "example_registry = [(''Parent'', ''Parent''), (''Child'', ''Child''), (''Counter'', ''Counter'')]"

definition example_classes :: class_table where
  "example_classes c =
     (if c = ''Parent''
      then \<lparr>ancestors = [], cfields = [plain_field ''first'', plain_field ''second''],
            registry = Some example_registry\<rparr>
      else if c = ''Child''
      then \<lparr>ancestors = [], cfields = [plain_field ''x''], registry = Some example_registry\<rparr>
      else if c = ''Counter''
      then \<lparr>ancestors = [],
            cfields = [(plain_field ''n'')
                         \<lparr>fdefault := DFunc (\<lambda>this. DFunc (\<lambda>this. DValue (VNum 5)))\<rparr>],
            registry = Some example_registry\<rparr>
      else \<lparr>ancestors = [], cfields = [], registry = None\<rparr>)"

subsection \<open>The conditions of the round trip\<close>





text \<open>
  Two more classes: \<open>Tagged\<close>, with a field whose wire name is the key of the type
  tag, and \<open>Strict\<close>, with a field whose \<open>createValue\<close> rejects every value when
  deserializing.
\<close>

definition tagged_classes :: class_table where
  "tagged_classes c =
     (if c = ''Tagged''
      then \<lparr>ancestors = [],
            cfields = [(plain_field ''kind'')\<lparr>serializedName := Some ''_type''\<rparr>],
            registry = Some [(''Tagged'', ''Tagged''), (''Strict'', ''Strict'')]\<rparr>
      else if c = ''Strict''
      then \<lparr>ancestors = [],
            cfields = [(plain_field ''x'')
                         \<lparr>createValue := (\<lambda>v owner isDeserializing.
                                           if isDeserializing then Inl FieldError else Inr v)\<rparr>],
            registry = Some [(''Tagged'', ''Tagged''), (''Strict'', ''Strict'')]\<rparr>
      else \<lparr>ancestors = [], cfields = [], registry = None\<rparr>)"


section \<open>Properties of field-mask.js\<close>

lemma wf_fields_Nil [simp]: "wf_fields []"
  by (simp add: wf_fields_def)

lemma wf_fields_Cons:
  "wf_fields ((k, v) # fs) \<Longrightarrow> k \<notin> fst ` set fs \<and> wf_fm v \<and> wf_fields fs"
  by (auto simp: wf_fields_def)

lemma wf_fields_head:
  "wf_fields ((k, v) # fs) \<Longrightarrow> k \<notin> set object_prototype_names \<and> wf_fields (entries v) \<and> wf_fields fs"
  by (cases v) (auto simp: wf_fields_def)


lemma wf_fields_lookup: "wf_fields fs \<Longrightarrow> map_of fs k = Some (FObj sub) \<Longrightarrow> wf_fields sub"
proof -
  assume wf: "wf_fields fs" and "map_of fs k = Some (FObj sub)"
  then have "(k, FObj sub) \<in> set fs" by (simp add: map_of_SomeD)
  with wf have "wf_fm (snd (k, FObj sub))" unfolding wf_fields_def wf_fm.simps by blast
  then show ?thesis by (simp add: wf_fields_def)
qed

lemma wf_fields_entries: "wf_fields fs \<Longrightarrow> map_of fs k = Some f \<Longrightarrow> wf_fields (entries f)"
  by (cases f) (auto dest: wf_fields_lookup)

subsection \<open>Reads of a name that \<open>Object.prototype\<close> does not define\<close>

lemma get_prop_wf:
  "name \<notin> set object_prototype_names \<Longrightarrow>
   get_prop obj name = (case map_of obj name of None \<Rightarrow> Undefined | Some v \<Rightarrow> Own v)"
  by (simp add: get_prop_def object_prototype_names_def split: option.splits)

lemma not_proto: "name \<notin> set object_prototype_names \<Longrightarrow> name \<noteq> ''__proto__''"
  by (auto simp: object_prototype_names_def)


lemma merge_from_Cons:
  "name \<notin> set object_prototype_names \<Longrightarrow>
   merge_from rootFields mergedFields ((name, otherFields) # rest) =
     (case otherFields of
        FTrue \<Rightarrow>
          (case map_of rootFields name of
             Some (FObj fs) \<Rightarrow> Inl IncompatibleMask
           | None \<Rightarrow> merge_from rootFields (AList.update name FTrue mergedFields) rest
           | Some FTrue \<Rightarrow> merge_from rootFields mergedFields rest)
      | FObj other \<Rightarrow>
          (case map_of rootFields name of
             Some FTrue \<Rightarrow> Inl IncompatibleMask
           | None \<Rightarrow>
               (case merge_from [] [] other of
                  Inl e \<Rightarrow> Inl e
                | Inr m \<Rightarrow> merge_from rootFields (AList.update name (FObj m) mergedFields) rest)
           | Some (FObj fs) \<Rightarrow>
               (case merge_from fs fs other of
                  Inl e \<Rightarrow> Inl e
                | Inr m \<Rightarrow> merge_from rootFields (AList.update name (FObj m) mergedFields) rest)))"
  by (simp add: get_prop_wf not_proto split: option.splits fm.splits)

lemma remove_from_Cons:
  "name \<notin> set object_prototype_names \<Longrightarrow>
   remove_from rootRemainingFields ((name, fs) # rest) rootOtherFields =
     (case map_of rootOtherFields name of
        None \<Rightarrow> remove_from (AList.update name fs rootRemainingFields) rest rootOtherFields
      | Some FTrue \<Rightarrow> remove_from rootRemainingFields rest rootOtherFields
      | Some (FObj other) \<Rightarrow>
          (case remove_from [] (entries fs) other of
             Inl e \<Rightarrow> Inl e
           | Inr remainingFields \<Rightarrow>
               if remainingFields \<noteq> []
               then remove_from (AList.update name (FObj remainingFields) rootRemainingFields)
                      rest rootOtherFields
               else remove_from rootRemainingFields rest rootOtherFields))"
  by (cases fs) (simp_all add: get_prop_wf not_proto split: option.splits fm.splits)

declare merge_from.simps(2) [simp del]
declare remove_from.simps(2) [simp del]

subsection \<open>\<open>$remove\<close>\<close>

lemma remove_from_total: "wf_fields fs \<Longrightarrow> \<exists>r. remove_from acc fs other = Inr r"
proof (induction acc fs other rule: remove_from.induct)
  case (1 rootRemainingFields rootOtherFields)
  show ?case by simp
next
  case (2 rootRemainingFields name fs rest rootOtherFields)
  from wf_fields_head[OF "2.prems"]
  have kp: "name \<notin> set object_prototype_names" and wo: "wf_fields (entries fs)"
    and wr: "wf_fields rest" by simp_all
  note np = not_proto[OF kp]
  note gp = get_prop_wf[OF kp, of rootOtherFields]
  show ?case
  proof (cases "map_of rootOtherFields name")
    case None
    with gp have "get_prop rootOtherFields name = Undefined" by simp
    from "2.IH"(1)[OF np this wr] None show ?thesis by (simp add: remove_from_Cons[OF kp])
  next
    case (Some f)
    with gp have gO: "get_prop rootOtherFields name = Own f" by simp
    show ?thesis
    proof (cases f)
      case FTrue
      from "2.IH"(2)[OF np gO FTrue wr] Some FTrue show ?thesis
        by (simp add: remove_from_Cons[OF kp])
    next
      case (FObj other)
      have "\<exists>b. (case fs of FTrue \<Rightarrow> Inr [] | FObj sub \<Rightarrow> remove_from [] sub other) = Inr b"
      proof (cases fs)
        case FTrue
        then show ?thesis by simp
      next
        case sub: (FObj sub)
        from wo sub have "wf_fields sub" by simp
        from "2.IH"(3)[OF np gO FObj sub this] sub show ?thesis by simp
      qed
      then obtain b where
        b: "(case fs of FTrue \<Rightarrow> Inr [] | FObj sub \<Rightarrow> remove_from [] sub other) = Inr b" ..
      then have b': "remove_from [] (entries fs) other = Inr b" by (cases fs) simp_all
      show ?thesis
      proof (cases "b = []")
        case True
        then have "\<not> b \<noteq> []" by simp
        from "2.IH"(5)[OF np gO FObj b this wr] Some FObj b' True show ?thesis
          by (simp add: remove_from_Cons[OF kp])
      next
        case False
        from "2.IH"(4)[OF np gO FObj b False wr] Some FObj b' False show ?thesis
          by (simp add: remove_from_Cons[OF kp])
      qed
    qed
  qed
qed

lemma remove_from_lookup:
  "wf_fields fs \<Longrightarrow> remove_from acc fs other = Inr r \<Longrightarrow>
   map_of r n =
     (case map_of fs n of
        None \<Rightarrow> map_of acc n
      | Some f \<Rightarrow>
          (case map_of other n of
             None \<Rightarrow> Some f
           | Some FTrue \<Rightarrow> map_of acc n
           | Some (FObj sub) \<Rightarrow>
               (case remove_from [] (entries f) sub of
                  Inl e \<Rightarrow> None
                | Inr remainingFields \<Rightarrow>
                    if remainingFields \<noteq> [] then Some (FObj remainingFields)
                    else map_of acc n)))"
proof (induction fs arbitrary: acc)
  case Nil
  then show ?case by simp
next
  case (Cons e fs)
  obtain k v where e: "e = (k, v)" by (cases e)
  from wf_fields_head[OF Cons.prems(1)[unfolded e]]
  have kp: "k \<notin> set object_prototype_names" and wr: "wf_fields fs" by simp_all
  from wf_fields_Cons[OF Cons.prems(1)[unfolded e]] have k: "k \<notin> fst ` set fs" by simp
  then have kn: "map_of fs k = None" by (simp add: map_of_eq_None_iff)
  note step = Cons.prems(2)[unfolded e remove_from_Cons[OF kp]]
  show ?case
  proof (cases "n = k")
    case True
    from True kn have kn': "map_of fs n = None" by simp
    from step show ?thesis
      unfolding e True[symmetric]
      by (auto simp: kn' update_conv' dest!: Cons.IH[OF wr]
               split: option.splits fm.splits sum.splits if_splits)
  next
    case False
    from step False show ?thesis
      unfolding e
      by (auto simp: update_conv' dest!: Cons.IH[OF wr]
               split: option.splits fm.splits sum.splits if_splits)
  qed
qed

subsection \<open>Paths and conflicts\<close>

lemma entry_at_Cons:
  "entry_at fs (n # p) =
     (if p = [] then map_of fs n
      else case map_of fs n of Some (FObj sub) \<Rightarrow> entry_at sub p | _ \<Rightarrow> None)"
  by (cases p) (auto split: option.splits fm.splits)

lemma entry_at_key: "entry_at fs (n # p) = Some x \<Longrightarrow> n \<in> fst ` set fs"
proof -
  assume "entry_at fs (n # p) = Some x"
  then have "map_of fs n \<noteq> None"
    by (auto simp: entry_at_Cons split: if_splits option.splits)
  then show ?thesis by (simp add: map_of_eq_None_iff)
qed

lemma conflict_at_key: "conflict_at a b (n # p) \<Longrightarrow> n \<in> fst ` set a \<and> n \<in> fst ` set b"
  unfolding conflict_at_def by (auto dest: entry_at_key)

lemma conflict_at_Nil [simp]: "\<not> conflict_at a b []"
  by (simp add: conflict_at_def)

lemma conflict_at_Cons:
  "conflict_at a b (n # p) =
     (if p = []
      then (map_of a n = Some FTrue \<and> (\<exists>sub. map_of b n = Some (FObj sub))) \<or>
           ((\<exists>sub. map_of a n = Some (FObj sub)) \<and> map_of b n = Some FTrue)
      else (\<exists>sa sb. map_of a n = Some (FObj sa) \<and> map_of b n = Some (FObj sb) \<and> conflict_at sa sb p))"
  unfolding conflict_at_def
  by (auto simp: entry_at_Cons split: option.splits fm.splits)

subsection \<open>\<open>$add\<close>\<close>

lemma merge_from_conflict:
  "wf_fields other \<Longrightarrow> merge_from root acc other = Inl e \<Longrightarrow>
   e = IncompatibleMask \<and> (\<exists>p. conflict_at root other p)"
proof (induction root acc other arbitrary: e rule: merge_from.induct)
  case (1 rootFields mergedFields)
  then show ?case by simp
next
  case (2 rootFields mergedFields name otherFields rest)
  from wf_fields_Cons[OF "2.prems"(1)]
  have k: "name \<notin> fst ` set rest" and wr: "wf_fields rest" and wo: "wf_fm otherFields"
    by simp_all
  from wf_fields_head[OF "2.prems"(1)] have kp: "name \<notin> set object_prototype_names" by simp
  note np = not_proto[OF kp]
  note gp = get_prop_wf[OF kp, of rootFields]
  note step = "2.prems"(2)[unfolded merge_from_Cons[OF kp]]
  have lift: "conflict_at rootFields ((name, otherFields) # rest) p" if "conflict_at rootFields rest p" for p
  proof (cases p)
    case Nil
    with that show ?thesis by simp
  next
    case (Cons n p')
    with that k have "n \<noteq> name" by (auto dest: conflict_at_key)
    with that Cons show ?thesis by (auto simp: conflict_at_Cons split: if_splits)
  qed
  show ?case
  proof (cases otherFields)
    case FTrue
    show ?thesis
    proof (cases "map_of rootFields name")
      case None
      with gp have gU: "get_prop rootFields name = Undefined" by simp
      from None FTrue step
      have "merge_from rootFields (AList.update name FTrue mergedFields) rest = Inl e"
        by simp
      from "2.IH"(1)[OF np FTrue gU wr this] lift show ?thesis by blast
    next
      case (Some f)
      with gp have gO: "get_prop rootFields name = Own f" by simp
      show ?thesis
      proof (cases f)
        case FTrue': FTrue
        with Some FTrue step have "merge_from rootFields mergedFields rest = Inl e" by simp
        from "2.IH"(2)[OF np FTrue gO FTrue' wr this] lift show ?thesis by blast
      next
        case (FObj fs)
        with Some FTrue have "conflict_at rootFields ((name, otherFields) # rest) [name]"
          by (simp add: conflict_at_Cons)
        moreover from Some FTrue FObj step have "e = IncompatibleMask" by simp
        ultimately show ?thesis by blast
      qed
    qed
  next
    case (FObj other)
    from wo FObj have wother: "wf_fields other" by (simp add: wf_fields_def)
    show ?thesis
    proof (cases "map_of rootFields name")
      case None
      with gp have gU: "get_prop rootFields name = Undefined" by simp
      show ?thesis
      proof (cases "merge_from [] [] other")
        case (Inl e')
        from "2.IH"(4)[OF np FObj gU wother Inl] obtain p where "conflict_at [] other p" by blast
        then have False by (cases p) (auto dest: conflict_at_key)
        then show ?thesis ..
      next
        case (Inr m)
        with None FObj step have
          "merge_from rootFields (AList.update name (FObj m) mergedFields) rest = Inl e" by simp
        from "2.IH"(5)[OF np FObj gU Inr wr this] lift show ?thesis by blast
      qed
    next
      case (Some f)
      with gp have gO: "get_prop rootFields name = Own f" by simp
      show ?thesis
      proof (cases f)
        case FTrue
        with Some FObj have "conflict_at rootFields ((name, otherFields) # rest) [name]"
          by (simp add: conflict_at_Cons)
        moreover from Some FTrue FObj step have "e = IncompatibleMask" by simp
        ultimately show ?thesis by blast
      next
        case FObj': (FObj fs)
        show ?thesis
        proof (cases "merge_from fs fs other")
          case (Inl e')
          from "2.IH"(6)[OF np FObj gO FObj' wother Inl] obtain p where
            e': "e' = IncompatibleMask" and p: "conflict_at fs other p" by blast
          then have "p \<noteq> []" by auto
          with p Some FObj FObj' have "conflict_at rootFields ((name, otherFields) # rest) (name # p)"
            by (simp add: conflict_at_Cons)
          moreover from Some FObj FObj' Inl e' step have "e = IncompatibleMask" by simp
          ultimately show ?thesis by blast
        next
          case (Inr m)
          with Some FObj FObj' step have
            "merge_from rootFields (AList.update name (FObj m) mergedFields) rest = Inl e" by simp
          from "2.IH"(7)[OF np FObj gO FObj' Inr wr this] lift show ?thesis by blast
        qed
      qed
    qed
  qed
qed

lemma conflict_merge_from:
  "wf_fields other \<Longrightarrow> conflict_at root other p \<Longrightarrow> \<exists>e. merge_from root acc other = Inl e"
proof (induction root acc other arbitrary: p rule: merge_from.induct)
  case (1 rootFields mergedFields)
  then show ?case by (cases p) (auto dest: conflict_at_key)
next
  case (2 rootFields mergedFields name otherFields rest)
  from wf_fields_Cons[OF "2.prems"(1)] have wr: "wf_fields rest" and wo: "wf_fm otherFields"
    by simp_all
  from wf_fields_head[OF "2.prems"(1)] have kp: "name \<notin> set object_prototype_names" by simp
  note np = not_proto[OF kp]
  note gp = get_prop_wf[OF kp, of rootFields]
  note unf = merge_from_Cons[OF kp]
  from "2.prems"(2) obtain n p' where p: "p = n # p'" by (cases p) auto
  show ?case
  proof (cases "n = name")
    case True
    show ?thesis
    proof (cases "p' = []")
      case True
      with \<open>n = name\<close> p "2.prems"(2) show ?thesis
        by (auto simp: conflict_at_Cons unf)
    next
      case False
      with \<open>n = name\<close> p "2.prems"(2) obtain sa sb where
        a: "map_of rootFields name = Some (FObj sa)" and b: "otherFields = FObj sb"
        and c: "conflict_at sa sb p'"
        by (auto simp: conflict_at_Cons)
      from a gp have gO: "get_prop rootFields name = Own (FObj sa)" by simp
      from wo b have "wf_fields sb" by (simp add: wf_fields_def)
      from "2.IH"(6)[OF np b gO refl this c] obtain e where "merge_from sa sa sb = Inl e" by blast
      with a b show ?thesis by (simp add: unf)
    qed
  next
    case False
    with p "2.prems"(2) have c: "conflict_at rootFields rest p"
      by (auto simp: conflict_at_Cons split: if_splits)
    show ?thesis
    proof (cases otherFields)
      case FTrue
      show ?thesis
      proof (cases "map_of rootFields name")
        case None
        with gp have gU: "get_prop rootFields name = Undefined" by simp
        from "2.IH"(1)[OF np FTrue gU wr c] FTrue None show ?thesis by (simp add: unf)
      next
        case (Some f)
        with gp have gO: "get_prop rootFields name = Own f" by simp
        show ?thesis
        proof (cases f)
          case FTrue': FTrue
          from "2.IH"(2)[OF np FTrue gO FTrue' wr c] FTrue Some FTrue' show ?thesis
            by (simp add: unf)
        next
          case (FObj fs)
          with Some FTrue show ?thesis by (simp add: unf)
        qed
      qed
    next
      case (FObj other)
      show ?thesis
      proof (cases "map_of rootFields name")
        case None
        with gp have gU: "get_prop rootFields name = Undefined" by simp
        show ?thesis
        proof (cases "merge_from [] [] other")
          case (Inl e')
          with None FObj show ?thesis by (simp add: unf)
        next
          case (Inr m)
          from "2.IH"(5)[OF np FObj gU Inr wr c] FObj None Inr show ?thesis by (simp add: unf)
        qed
      next
        case (Some f)
        with gp have gO: "get_prop rootFields name = Own f" by simp
        show ?thesis
        proof (cases f)
          case FTrue
          with Some FObj show ?thesis by (simp add: unf)
        next
          case FObj': (FObj fs)
          show ?thesis
          proof (cases "merge_from fs fs other")
            case (Inl e')
            with Some FObj FObj' show ?thesis by (simp add: unf)
          next
            case (Inr m)
            from "2.IH"(7)[OF np FObj gO FObj' Inr wr c] FObj Some FObj' Inr show ?thesis
              by (simp add: unf)
          qed
        qed
      qed
    qed
  qed
qed

lemma merge_fails_iff:
  "wf_fields b \<Longrightarrow> (\<exists>e. merge a b = Inl e) = (\<exists>p. conflict_at a b p)"
  unfolding merge_def by (blast dest: merge_from_conflict conflict_merge_from)

lemma merge_from_other_key:
  "wf_fields other \<Longrightarrow> n \<notin> fst ` set other \<Longrightarrow> merge_from root acc other = Inr m \<Longrightarrow>
   map_of m n = map_of acc n"
proof (induction other arbitrary: acc)
  case Nil
  then show ?case by simp
next
  case (Cons e other)
  obtain k v where e: "e = (k, v)" by (cases e)
  with Cons.prems(2) have nk: "n \<noteq> k" and n: "n \<notin> fst ` set other" by auto
  from wf_fields_head[OF Cons.prems(1)[unfolded e]]
  have kp: "k \<notin> set object_prototype_names" and wr: "wf_fields other" by simp_all
  from Cons.prems(3)[unfolded e merge_from_Cons[OF kp]] nk show ?case
    by (auto simp: update_conv' Cons.IH[OF wr n] split: fm.splits option.splits sum.splits)
qed

lemma merge_from_leaf:
  "wf_fields other \<Longrightarrow> map_of other n = Some FTrue \<Longrightarrow>
   merge_from root acc other = Inr m \<Longrightarrow>
   (\<forall>fs. map_of root n \<noteq> Some (FObj fs)) \<and>
   map_of m n = (case map_of root n of None \<Rightarrow> Some FTrue | Some x \<Rightarrow> map_of acc n)"
proof (induction other arbitrary: acc)
  case Nil
  then show ?case by simp
next
  case (Cons e other)
  obtain k v where e: "e = (k, v)" by (cases e)
  from wf_fields_head[OF Cons.prems(1)[unfolded e]]
  have kp: "k \<notin> set object_prototype_names" and wr: "wf_fields other" by simp_all
  from wf_fields_Cons[OF Cons.prems(1)[unfolded e]] have k: "k \<notin> fst ` set other" by simp
  note step = Cons.prems(3)[unfolded e merge_from_Cons[OF kp]]
  show ?case
  proof (cases "n = k")
    case True
    with Cons.prems(2) e have v: "v = FTrue" by simp
    from step v True show ?thesis
      by (auto simp: update_conv' dest!: merge_from_other_key[OF wr k] split: option.splits fm.splits)
  next
    case False
    with Cons.prems(2) e have l: "map_of other n = Some FTrue" by simp
    from step False show ?thesis
      by (auto simp: update_conv' dest!: Cons.IH[OF wr l] split: fm.splits option.splits sum.splits)
  qed
qed

lemma merge_from_nested:
  "wf_fields other \<Longrightarrow> map_of other n = Some (FObj sub) \<Longrightarrow>
   merge_from root acc other = Inr m \<Longrightarrow>
   map_of root n \<noteq> Some FTrue \<and>
   (\<exists>m'. merge (case map_of root n of Some (FObj fs) \<Rightarrow> fs | _ \<Rightarrow> []) sub = Inr m' \<and>
         map_of m n = Some (FObj m'))"
proof (induction other arbitrary: acc)
  case Nil
  then show ?case by simp
next
  case (Cons e other)
  obtain k v where e: "e = (k, v)" by (cases e)
  from wf_fields_head[OF Cons.prems(1)[unfolded e]]
  have kp: "k \<notin> set object_prototype_names" and wr: "wf_fields other" by simp_all
  from wf_fields_Cons[OF Cons.prems(1)[unfolded e]] have k: "k \<notin> fst ` set other" by simp
  note step = Cons.prems(3)[unfolded e merge_from_Cons[OF kp]]
  show ?case
  proof (cases "n = k")
    case True
    with Cons.prems(2) e have v: "v = FObj sub" by simp
    from step v True show ?thesis
      by (auto simp: update_conv' merge_def dest!: merge_from_other_key[OF wr k]
               split: option.splits fm.splits sum.splits)
  next
    case False
    with Cons.prems(2) e have l: "map_of other n = Some (FObj sub)" by simp
    from step False show ?thesis
      by (auto simp: update_conv' dest!: Cons.IH[OF wr l] split: fm.splits option.splits sum.splits)
  qed
qed

lemma merge_lookup:
  assumes "wf_fields b" and "merge a b = Inr m"
  shows "map_of m n = merged_entry (map_of a n) (map_of b n)"
proof (cases "map_of b n")
  case None
  then have "n \<notin> fst ` set b" by (simp add: map_of_eq_None_iff)
  from merge_from_other_key[OF assms(1) this assms(2)[unfolded merge_def]] None show ?thesis by simp
next
  case (Some v)
  show ?thesis
  proof (cases v)
    case FTrue
    from merge_from_leaf[OF assms(1) Some[unfolded FTrue] assms(2)[unfolded merge_def]] Some FTrue
    show ?thesis by (cases "map_of a n"; cases "the (map_of a n)") auto
  next
    case (FObj sub)
    from merge_from_nested[OF assms(1) Some[unfolded FObj] assms(2)[unfolded merge_def]] Some FObj
    show ?thesis by (cases "map_of a n"; cases "the (map_of a n)") auto
  qed
qed

subsection \<open>\<open>$includes\<close>\<close>




lemma merge_Nil [simp]: "merge a [] = Inr a"
  by (simp add: merge_def)



subsection \<open>The claims on field masks\<close>

lemma entry_at_Nil [simp]: "entry_at [] p = None"
  by (induction "[] :: fields" p rule: entry_at.induct) simp_all

lemma no_conflict_Nil: "\<not> leaf_nested_conflict (FieldMask []) b"
  by (simp add: leaf_nested_conflict_def conflict_at_def)

text \<open>
  C5, as stated, fails. \<open>a = {}\<close> and \<open>b = {toString: true}\<close> have no conflict, yet
  \<open>add(a, b)\<close> is the empty mask: \<open>rootFields['toString']\<close> reads the function inherited
  from \<open>Object.prototype\<close>, neither test of the leaf branch holds, and the leaf of \<open>b\<close> is
  not merged.
\<close>

theorem add_prototype_counterexample:
  "\<not> leaf_nested_conflict (FieldMask []) (FieldMask [(''toString'', FTrue)]) \<and>
   add (FieldMask []) (FieldMask [(''toString'', FTrue)]) = Inr (FieldMask []) \<and>
   map_of (mask_fields (FieldMask [])) ''toString'' \<noteq>
     merged_entry (map_of (mask_fields (FieldMask [])) ''toString'')
       (map_of (mask_fields (FieldMask [(''toString'', FTrue)])) ''toString'')"
  by (simp add: no_conflict_Nil add_def merge_def merge_from.simps get_prop_def
        object_prototype_functions_def)

text \<open>
  C5, amended. For every FieldMask \<open>a\<close> and every FieldMask \<open>b\<close> that holds each key once
  and no key that is the name of a property of \<open>Object.prototype\<close>, at every depth:
  \<open>add(a, b)\<close> fails, and then with IncompatibleMask, exactly when on some shared path one
  mask's entry is the leaf \<open>true\<close> and the other's is a nested object. Otherwise it
  returns a mask whose entry for every name is the merged entry: a name only in \<open>a\<close>
  passes through unchanged, leaves merge idempotently and nested entries are merged
  recursively. The functions are pure, so neither input is changed.
\<close>

theorem add_spec:
  assumes "wf_mask b"
  shows "((\<exists>e. add a b = Inl e) = leaf_nested_conflict a b) \<and>
         (\<forall>e. add a b = Inl e \<longrightarrow> e = IncompatibleMask) \<and>
         (\<not> leaf_nested_conflict a b \<longrightarrow>
            (\<exists>m. add a b = Inr m \<and>
                 (\<forall>n. map_of (mask_fields m) n =
                        merged_entry (map_of (mask_fields a) n) (map_of (mask_fields b) n))))"
proof -
  from assms have wb: "wf_fields (mask_fields b)" by (simp add: wf_mask_def)
  have fail: "(\<exists>e. add a b = Inl e) = leaf_nested_conflict a b"
    using merge_fails_iff[OF wb, of "mask_fields a"]
    by (auto simp: add_def leaf_nested_conflict_def split: sum.splits)
  have kind: "\<forall>e. add a b = Inl e \<longrightarrow> e = IncompatibleMask"
    by (auto simp: add_def merge_def split: sum.splits dest: merge_from_conflict[OF wb])
  have ok: "\<exists>m. add a b = Inr m \<and>
                 (\<forall>n. map_of (mask_fields m) n =
                        merged_entry (map_of (mask_fields a) n) (map_of (mask_fields b) n))"
    if "\<not> leaf_nested_conflict a b"
  proof -
    from that fail obtain m where m: "merge (mask_fields a) (mask_fields b) = Inr m"
      by (cases "merge (mask_fields a) (mask_fields b)") (auto simp: add_def)
    from merge_lookup[OF wb m] m show ?thesis by (simp add: add_def)
  qed
  from fail kind ok show ?thesis by blast
qed

theorem add_spec_witness:
  "wf_mask (FieldMask [(''b'', FObj [(''d'', FTrue)]), (''e'', FTrue)]) \<and>
   \<not> leaf_nested_conflict (FieldMask [(''a'', FTrue), (''b'', FObj [(''c'', FTrue)])])
        (FieldMask [(''b'', FObj [(''d'', FTrue)]), (''e'', FTrue)]) \<and>
   add (FieldMask [(''a'', FTrue), (''b'', FObj [(''c'', FTrue)])])
       (FieldMask [(''b'', FObj [(''d'', FTrue)]), (''e'', FTrue)]) =
     Inr (FieldMask [(''a'', FTrue), (''b'', FObj [(''c'', FTrue), (''d'', FTrue)]), (''e'', FTrue)])"
proof -
  let ?a = "FieldMask [(''a'', FTrue), (''b'', FObj [(''c'', FTrue)])]"
  let ?b = "FieldMask [(''b'', FObj [(''d'', FTrue)]), (''e'', FTrue)]"
  have wb: "wf_mask ?b"
    by (simp add: wf_mask_def wf_fields_def object_prototype_names_def
          object_prototype_functions_def)
  have ev: "add ?a ?b =
     Inr (FieldMask [(''a'', FTrue), (''b'', FObj [(''c'', FTrue), (''d'', FTrue)]), (''e'', FTrue)])"
    by (simp add: add_def merge_def merge_from.simps get_prop_def object_prototype_functions_def)
  from add_spec[OF wb, of ?a] ev have nc: "\<not> leaf_nested_conflict ?a ?b" by auto
  with wb ev show ?thesis by simp
qed

text \<open>The spec's example of a failing merge.\<close>

lemma add_example_conflict:
  "add (FieldMask [(''a'', FTrue)]) (FieldMask [(''a'', FObj [(''b'', FTrue)])]) = Inl IncompatibleMask"
  by (simp add: add_def merge_def merge_from.simps get_prop_def object_prototype_functions_def)




text \<open>
  C7, as stated, fails. \<open>a = {toString: true}\<close> and \<open>b = {}\<close>: \<open>b\<close> has no entry for the
  name, yet \<open>remove(a, b)\<close> is the empty mask. \<open>rootOtherFields['toString']\<close> reads the
  inherited function, which is neither \<open>undefined\<close> nor an object, and the name is
  dropped.
\<close>

theorem remove_prototype_counterexample:
  "map_of (mask_fields (FieldMask [(''toString'', FTrue)])) ''toString'' = Some FTrue \<and>
   map_of (mask_fields (FieldMask [])) ''toString'' = None \<and>
   remove (FieldMask [(''toString'', FTrue)]) (FieldMask []) = Inr (FieldMask [])"
  by (simp add: remove_def remove_from.simps get_prop_def object_prototype_functions_def)

text \<open>
  C7, amended. For every FieldMask \<open>a\<close> that holds each key once and no key that is the
  name of a property of \<open>Object.prototype\<close>, at every depth, and every FieldMask \<open>b\<close>:
  \<open>remove(a, b)\<close> returns a mask in which a name of \<open>a\<close> is kept unchanged when \<open>b\<close> has
  no entry for it, is subtracted recursively and kept only if the remainder is not empty
  when \<open>b\<close>'s entry is nested, and is dropped when \<open>b\<close>'s entry is the leaf \<open>true\<close>; the
  result has no other names. The two examples of the spec evaluate as stated.
\<close>

theorem remove_spec:
  assumes "wf_mask a"
  shows "(\<exists>m. remove a b = Inr m \<and>
            (\<forall>n. map_of (mask_fields a) n = None \<longrightarrow> map_of (mask_fields m) n = None) \<and>
            (\<forall>n f. map_of (mask_fields a) n = Some f \<longrightarrow>
               (case map_of (mask_fields b) n of
                  None \<Rightarrow> map_of (mask_fields m) n = Some f
                | Some FTrue \<Rightarrow> map_of (mask_fields m) n = None
                | Some (FObj other) \<Rightarrow>
                    (\<exists>r. remove (FieldMask (entries f)) (FieldMask other) = Inr r \<and>
                         map_of (mask_fields m) n =
                           (if isEmpty r then None else Some (FObj (mask_fields r))))))) \<and>
         remove (FieldMask [(''a'', FObj [(''b'', FTrue), (''c'', FTrue)])])
                (FieldMask [(''a'', FObj [(''b'', FTrue)])]) =
           Inr (FieldMask [(''a'', FObj [(''c'', FTrue)])]) \<and>
         remove (FieldMask [(''a'', FObj [(''b'', FTrue)])]) (FieldMask [(''a'', FTrue)]) =
           Inr (FieldMask [])"
proof -
  from assms have wa: "wf_fields (mask_fields a)" by (simp add: wf_mask_def)
  from remove_from_total[OF wa, of "[]" "mask_fields b"] obtain r where
    r: "remove_from [] (mask_fields a) (mask_fields b) = Inr r" ..
  note lk = remove_from_lookup[OF wa r]
  let ?m = "FieldMask r"
  from r have rm: "remove a b = Inr ?m" by (simp add: remove_def)
  have none: "map_of (mask_fields ?m) n = None" if "map_of (mask_fields a) n = None" for n
    using lk[of n] that by simp
  have some: "case map_of (mask_fields b) n of
                  None \<Rightarrow> map_of (mask_fields ?m) n = Some f
                | Some FTrue \<Rightarrow> map_of (mask_fields ?m) n = None
                | Some (FObj other) \<Rightarrow>
                    (\<exists>r. remove (FieldMask (entries f)) (FieldMask other) = Inr r \<and>
                         map_of (mask_fields ?m) n =
                           (if isEmpty r then None else Some (FObj (mask_fields r))))"
    if f: "map_of (mask_fields a) n = Some f" for n f
  proof (cases "map_of (mask_fields b) n")
    case None
    with lk[of n] f show ?thesis by simp
  next
    case (Some g)
    show ?thesis
    proof (cases g)
      case FTrue
      with Some lk[of n] f show ?thesis by simp
    next
      case (FObj other)
      from remove_from_total[OF wf_fields_entries[OF wa f], of "[]" other] obtain rem where
        rem: "remove_from [] (entries f) other = Inr rem" ..
      then have nested: "remove (FieldMask (entries f)) (FieldMask other) = Inr (FieldMask rem)"
        by (simp add: remove_def)
      from Some FObj lk[of n] f rem
      have "map_of (mask_fields ?m) n =
              (if isEmpty (FieldMask rem) then None else Some (FObj (mask_fields (FieldMask rem))))"
        by (simp add: isEmpty_def)
      with nested have
        "\<exists>r. remove (FieldMask (entries f)) (FieldMask other) = Inr r \<and>
             map_of (mask_fields ?m) n =
               (if isEmpty r then None else Some (FObj (mask_fields r)))"
        by blast
      with Some FObj show ?thesis by simp
    qed
  qed
  have ex1: "remove (FieldMask [(''a'', FObj [(''b'', FTrue), (''c'', FTrue)])])
                (FieldMask [(''a'', FObj [(''b'', FTrue)])]) =
           Inr (FieldMask [(''a'', FObj [(''c'', FTrue)])])"
    by (simp add: remove_def remove_from.simps get_prop_def object_prototype_functions_def)
  have ex2: "remove (FieldMask [(''a'', FObj [(''b'', FTrue)])]) (FieldMask [(''a'', FTrue)]) =
           Inr (FieldMask [])"
    by (simp add: remove_def remove_from.simps get_prop_def object_prototype_functions_def)
  from rm none some ex1 ex2 show ?thesis by blast
qed

theorem remove_spec_witness:
  "wf_mask (FieldMask [(''a'', FObj [(''b'', FTrue), (''c'', FTrue)]), (''d'', FTrue)]) \<and>
   remove (FieldMask [(''a'', FObj [(''b'', FTrue), (''c'', FTrue)]), (''d'', FTrue)])
          (FieldMask [(''a'', FObj [(''b'', FTrue)])]) =
     Inr (FieldMask [(''a'', FObj [(''c'', FTrue)]), (''d'', FTrue)]) \<and>
   remove (FieldMask [(''b'', FTrue), (''c'', FTrue)]) (FieldMask [(''b'', FTrue)]) =
     Inr (FieldMask [(''c'', FTrue)])"
proof -
  let ?a = "FieldMask [(''a'', FObj [(''b'', FTrue), (''c'', FTrue)]), (''d'', FTrue)]"
  let ?b = "FieldMask [(''a'', FObj [(''b'', FTrue)])]"
  have wa: "wf_mask ?a"
    by (simp add: wf_mask_def wf_fields_def object_prototype_names_def
          object_prototype_functions_def)
  from remove_spec[OF wa, of ?b]
  obtain m where m: "remove ?a ?b = Inr m"
    and every: "\<forall>n f. map_of (mask_fields ?a) n = Some f \<longrightarrow>
               (case map_of (mask_fields ?b) n of
                  None \<Rightarrow> map_of (mask_fields m) n = Some f
                | Some FTrue \<Rightarrow> map_of (mask_fields m) n = None
                | Some (FObj other) \<Rightarrow>
                    (\<exists>r. remove (FieldMask (entries f)) (FieldMask other) = Inr r \<and>
                         map_of (mask_fields m) n =
                           (if isEmpty r then None else Some (FObj (mask_fields r)))))"
    by blast
  from every[rule_format, of "''a''" "FObj [(''b'', FTrue), (''c'', FTrue)]"]
  have a: "\<exists>r. remove (FieldMask (entries (FObj [(''b'', FTrue), (''c'', FTrue)])))
                  (FieldMask [(''b'', FTrue)]) = Inr r \<and>
                map_of (mask_fields m) ''a'' =
                  (if isEmpty r then None else Some (FObj (mask_fields r)))"
    by simp
  have ev: "remove ?a ?b = Inr (FieldMask [(''a'', FObj [(''c'', FTrue)]), (''d'', FTrue)])"
    by (simp add: remove_def remove_from.simps get_prop_def object_prototype_functions_def)
  from a have "remove (FieldMask [(''b'', FTrue), (''c'', FTrue)]) (FieldMask [(''b'', FTrue)]) =
     Inr (FieldMask [(''c'', FTrue)])"
    by (simp add: remove_def remove_from.simps get_prop_def object_prototype_functions_def)
  with wa ev show ?thesis by simp
qed



section \<open>Properties of model.js\<close>

lemma resolve_default_simps [simp]:
  "resolve_default this (DValue v) = Some v"
  "resolve_default this (DFunc g) = resolve_default this (g this)"
  by (simp_all add: resolve_default.simps)

subsection \<open>The search for submodels\<close>

lemma findFromOneOrMany_elems_total:
  assumes "\<And>x. x \<in> set xs \<Longrightarrow> \<exists>x' r. func x = Inr (x', r) \<and> (r \<noteq> VUndefined \<longrightarrow> is_model x')"
  shows "\<exists>xs' r. findFromOneOrMany_elems xs func = Inr (xs', r) \<and> (r = VUndefined \<or> is_model r)"
  using assms
proof (induction xs)
  case Nil
  show ?case by simp
next
  case (Cons x xs)
  from Cons.prems[of x] obtain x' r where x: "func x = Inr (x', r)"
    and m: "r \<noteq> VUndefined \<longrightarrow> is_model x'" by auto
  from Cons.IH Cons.prems obtain xs' r' where
    "findFromOneOrMany_elems xs func = Inr (xs', r')" "r' = VUndefined \<or> is_model r'"
    by auto
  with x m show ?case by auto
qed

lemma submodel_finder_total:
  assumes "\<And>s. v = VModel s \<Longrightarrow> \<exists>s' r. func s = Inr (s', r)"
  shows "\<exists>v' r. submodel_finder func v = Inr (v', r) \<and> (r \<noteq> VUndefined \<longrightarrow> is_model v')"
proof (cases v)
  case (VModel s)
  with assms[of s] obtain s' r where "func s = Inr (s', r)" by auto
  with VModel show ?thesis by (simp add: submodel_finder_def)
qed (simp_all add: submodel_finder_def)

lemma findFromOneOrMany_total:
  assumes "\<And>s. s \<in> submodels_in v \<Longrightarrow> \<exists>s' r. func s = Inr (s', r)"
  shows "\<exists>v' r. findFromOneOrMany v (submodel_finder func) = Inr (v', r) \<and>
                (r = VUndefined \<or> is_model r)"
proof (cases v)
  case (VArr xs)
  have "\<exists>x' r. submodel_finder func x = Inr (x', r) \<and> (r \<noteq> VUndefined \<longrightarrow> is_model x')"
    if "x \<in> set xs" for x
  proof (rule submodel_finder_total)
    fix s assume "x = VModel s"
    with that VArr have "s \<in> submodels_in v" by (simp add: submodels_in_def)
    then show "\<exists>s' r. func s = Inr (s', r)" by (rule assms)
  qed
  from findFromOneOrMany_elems_total[of xs "submodel_finder func", OF this] VArr
  show ?thesis by (auto simp: findFromOneOrMany_def)
next
  case (VModel s)
  with assms[of s] obtain s' r where "func s = Inr (s', r)" by (auto simp: submodels_in_def)
  with VModel show ?thesis by (simp add: findFromOneOrMany_def submodel_finder_def)
qed (simp_all add: findFromOneOrMany_def submodel_finder_def)

lemma forEachSubmodel_fields_total:
  assumes "\<And>s. s \<in> submodels this \<Longrightarrow> \<exists>s' r. func s = Inr (s', r)"
  shows "\<exists>acc' r. forEachSubmodel_fields func this acc fs = Inr (acc', r) \<and>
                  (r = VUndefined \<or> is_model r) \<and>
                  savedFieldValues acc' = savedFieldValues acc \<and> cls acc' = cls acc"
proof (induction fs arbitrary: acc)
  case Nil
  show ?case by simp
next
  case (Cons f fs)
  have "\<exists>v' r. findFromOneOrMany (getFieldValue this f) (submodel_finder func) = Inr (v', r) \<and>
                (r = VUndefined \<or> is_model r)"
    by (rule findFromOneOrMany_total) (auto dest: getFieldValue_submodels intro: assms)
  then obtain v' r where
    v: "findFromOneOrMany (getFieldValue this f) (submodel_finder func) = Inr (v', r)"
    and r: "r = VUndefined \<or> is_model r" by blast
  have sb: "savedFieldValues (store_back acc f v') = savedFieldValues acc \<and>
            cls (store_back acc f v') = cls acc"
    by (simp add: store_back_def split: option.splits)
  show ?case
  proof (cases "r = VUndefined")
    case True
    with v Cons.IH[of "store_back acc f v'"] sb show ?thesis by auto
  next
    case False
    with v r sb show ?thesis by auto
  qed
qed

lemma isChanged_raw_result:
  "\<exists>r. isChanged_raw tab this = Inr r \<and> (r = VBool True) = (savedFieldValues this \<noteq> None)"
proof (induction tab this rule: isChanged_raw.induct)
  case (1 tab c fv sv)
  show ?case
  proof (cases sv)
    case (Some a)
    then show ?thesis by simp
  next
    case None
    let ?func = "\<lambda>submodel. case isChanged_raw tab submodel of
                    Inl e \<Rightarrow> Inl e | Inr r \<Rightarrow> Inr (submodel, r)"
    have "\<exists>s' r. ?func s = Inr (s', r)" if "s \<in> submodels (Model c fv sv)" for s
      using "1.IH"[OF _ that] None by auto
    from forEachSubmodel_fields_total[of "Model c fv sv" ?func "Model c fv sv", OF this]
    obtain acc' r where
      "forEachSubmodel tab ?func (Model c fv sv) = Inr (acc', r)" "r = VUndefined \<or> is_model r"
      unfolding forEachSubmodel_def by blast
    with None show ?thesis by (cases r) auto
  qed
qed

lemma isChanged_saved: "isChanged tab this = Inr (savedFieldValues this \<noteq> None)"
  using isChanged_raw_result[of tab this] by (auto simp: isChanged_def)


subsection \<open>Visits that leave the submodels as they are\<close>

lemma findFromOneOrMany_elems_id:
  assumes "\<And>x. x \<in> set xs \<Longrightarrow> \<exists>r. func x = Inr (x, r)"
  shows "\<exists>r. findFromOneOrMany_elems xs func = Inr (xs, r)"
  using assms
proof (induction xs)
  case Nil
  show ?case by simp
next
  case (Cons x xs)
  from Cons.prems[of x] obtain r where x: "func x = Inr (x, r)" by auto
  from Cons.IH Cons.prems obtain r' where "findFromOneOrMany_elems xs func = Inr (xs, r')"
    by auto
  with x show ?case by auto
qed

lemma submodel_finder_id:
  assumes "\<And>s. v = VModel s \<Longrightarrow> \<exists>r. func s = Inr (s, r)"
  shows "\<exists>r. submodel_finder func v = Inr (v, r)"
proof (cases v)
  case (VModel s)
  with assms[of s] obtain r where "func s = Inr (s, r)" by auto
  with VModel show ?thesis by (simp add: submodel_finder_def)
qed (simp_all add: submodel_finder_def)

lemma findFromOneOrMany_id:
  assumes "\<And>s. s \<in> submodels_in v \<Longrightarrow> \<exists>r. func s = Inr (s, r)"
  shows "\<exists>r. findFromOneOrMany v (submodel_finder func) = Inr (v, r)"
proof (cases v)
  case (VArr xs)
  have "\<exists>r. submodel_finder func x = Inr (x, r)" if "x \<in> set xs" for x
  proof (rule submodel_finder_id)
    fix s assume "x = VModel s"
    with that VArr have "s \<in> submodels_in v" by (simp add: submodels_in_def)
    then show "\<exists>r. func s = Inr (s, r)" by (rule assms)
  qed
  from findFromOneOrMany_elems_id[of xs "submodel_finder func", OF this] VArr
  show ?thesis by (auto simp: findFromOneOrMany_def)
next
  case (VModel s)
  with assms[of s] obtain r where "func s = Inr (s, r)" by (auto simp: submodels_in_def)
  with VModel show ?thesis by (simp add: findFromOneOrMany_def submodel_finder_def)
qed (simp_all add: findFromOneOrMany_def submodel_finder_def)

lemma store_back_id: "store_back this f (getFieldValue this f) = this"
  by (cases this) (auto simp: store_back_def getFieldValue_def update_triv split: option.splits)

lemma forEachSubmodel_fields_id:
  assumes "\<And>s. s \<in> submodels this \<Longrightarrow> \<exists>r. func s = Inr (s, r)"
  shows "\<exists>r. forEachSubmodel_fields func this this fs = Inr (this, r)"
proof (induction fs)
  case Nil
  show ?case by simp
next
  case (Cons f fs)
  have "\<exists>r. findFromOneOrMany (getFieldValue this f) (submodel_finder func) =
             Inr (getFieldValue this f, r)"
    by (rule findFromOneOrMany_id) (auto dest: getFieldValue_submodels intro: assms)
  then obtain r where
    "findFromOneOrMany (getFieldValue this f) (submodel_finder func) = Inr (getFieldValue this f, r)"
    by blast
  with Cons.IH show ?case by (auto simp: store_back_id)
qed

lemma fresh_submodels: "fresh_model this \<Longrightarrow> s \<in> submodels this \<Longrightarrow> fresh_model s"
proof -
  assume f: "fresh_model this" and "s \<in> submodels this"
  then obtain es v where fv: "fieldValues this = Some es" and v: "v \<in> snd ` set es"
    and s: "s \<in> submodels_in v"
    by (auto simp: submodels_def values_of_def split: option.splits)
  from f fv v have "fresh_value v" by (cases this) auto
  with s show ?thesis by (cases v) (auto simp: submodels_in_def)
qed

lemma restore_fresh: "fresh_model this \<Longrightarrow> restore this = Inr this"
  by (cases this) (simp add: restore_def)

lemma rollback_fresh: "fresh_model this \<Longrightarrow> rollback tab this = Inr this"
proof (induction tab this rule: rollback.induct)
  case (1 tab c fv sv)
  let ?m = "Model c fv sv"
  let ?func = "\<lambda>submodel. case rollback tab submodel of
                  Inl e \<Rightarrow> Inl e | Inr s' \<Rightarrow> Inr (s', VUndefined)"
  from "1.prems" have r: "restore ?m = Inr ?m" by (rule restore_fresh)
  have "\<exists>r. ?func s = Inr (s, r)" if "s \<in> submodels ?m" for s
    using "1.IH"[OF r that fresh_submodels[OF "1.prems" that]] by simp
  then have "\<exists>r'. forEachSubmodel_fields ?func ?m ?m (cfields (tab c)) = Inr (?m, r')"
    by (rule forEachSubmodel_fields_id)
  with r show ?case by (auto simp: forEachSubmodel_def)
qed

subsection \<open>Visits that only touch the change tracking\<close>

lemma commit_result:
  "\<exists>this'. commit tab this = Inr this' \<and> savedFieldValues this' = None \<and> cls this' = cls this"
proof (induction tab this rule: commit.induct)
  case (1 tab c fv sv)
  let ?func = "\<lambda>submodel. case commit tab submodel of
                  Inl e \<Rightarrow> Inl e | Inr s' \<Rightarrow> Inr (s', VUndefined)"
  have "\<exists>s' r. ?func s = Inr (s', r)" if "s \<in> submodels (Model c fv None)" for s
    using "1.IH"[OF that] by auto
  then have "\<exists>acc' r. forEachSubmodel_fields ?func (Model c fv None) (Model c fv None)
                      (cfields (tab c)) = Inr (acc', r) \<and>
                  (r = VUndefined \<or> is_model r) \<and>
                  savedFieldValues acc' = savedFieldValues (Model c fv None) \<and>
                  cls acc' = cls (Model c fv None)"
    by (rule forEachSubmodel_fields_total)
  then show ?case by (auto simp: forEachSubmodel_def)
qed


lemma findFromOneOrMany_elems_forget:
  assumes "\<And>x x' r. x \<in> set xs \<Longrightarrow> func x = Inr (x', r) \<Longrightarrow> forget x' = forget x"
    and "findFromOneOrMany_elems xs func = Inr (xs', r)"
  shows "map forget xs' = map forget xs"
  using assms
proof (induction xs arbitrary: xs' r)
  case Nil
  then show ?case by simp
next
  case (Cons x xs)
  from Cons.prems(2) obtain x' rx where x: "func x = Inr (x', rx)"
    by (auto split: sum.splits)
  from Cons.prems(1)[OF _ x] have fx: "forget x' = forget x" by simp
  show ?case
  proof (cases "rx = VUndefined")
    case False
    with x Cons.prems(2) fx show ?thesis by auto
  next
    case True
    with x Cons.prems(2) obtain ys r' where ys: "findFromOneOrMany_elems xs func = Inr (ys, r')"
      and xs': "xs' = x' # ys"
      by (auto split: sum.splits)
    from Cons.IH[OF _ ys] Cons.prems(1) have "map forget ys = map forget xs" by auto
    with xs' fx show ?thesis by simp
  qed
qed

lemma submodel_finder_forget:
  assumes "\<And>s s' r. v = VModel s \<Longrightarrow> func s = Inr (s', r) \<Longrightarrow> forget_model s' = forget_model s"
    and "submodel_finder func v = Inr (v', r)"
  shows "forget v' = forget v"
proof (cases v)
  case (VModel s)
  with assms(2) obtain s' r' where "func s = Inr (s', r')" and "v' = VModel s'"
    by (auto simp: submodel_finder_def split: sum.splits)
  with assms(1)[OF VModel] VModel show ?thesis by simp
qed (use assms(2) in \<open>auto simp: submodel_finder_def\<close>)

lemma findFromOneOrMany_forget:
  assumes "\<And>s s' r. s \<in> submodels_in v \<Longrightarrow> func s = Inr (s', r) \<Longrightarrow>
             forget_model s' = forget_model s"
    and "findFromOneOrMany v (submodel_finder func) = Inr (v', r)"
  shows "forget v' = forget v"
proof (cases v)
  case (VArr xs)
  with assms(2) obtain xs' where
    e: "findFromOneOrMany_elems xs (submodel_finder func) = Inr (xs', r)" and v': "v' = VArr xs'"
    by (auto simp: findFromOneOrMany_def split: sum.splits)
  have "forget x' = forget x"
    if "x \<in> set xs" and "submodel_finder func x = Inr (x', rx)" for x x' rx
  proof (rule submodel_finder_forget[OF _ that(2)])
    fix s s' r' assume "x = VModel s" and f: "func s = Inr (s', r')"
    with that(1) VArr have "s \<in> submodels_in v" by (simp add: submodels_in_def)
    from assms(1)[OF this f] show "forget_model s' = forget_model s" .
  qed
  from findFromOneOrMany_elems_forget[OF this e] v' VArr show ?thesis by simp
next
  case (VModel s)
  with assms(2) obtain s' r' where f: "func s = Inr (s', r')" and v': "v' = VModel s'"
    by (auto simp: findFromOneOrMany_def submodel_finder_def split: sum.splits)
  from VModel have "s \<in> submodels_in v" by (simp add: submodels_in_def)
  from assms(1)[OF this f] v' VModel show ?thesis by simp
qed (use assms(2) in \<open>auto simp: findFromOneOrMany_def submodel_finder_def\<close>)

lemma map_of_forget:
  "map_of (map (\<lambda>e. (fst e, forget (snd e))) es) k = map_option forget (map_of es k)"
  by (induction es) auto

lemma map_forget_update:
  "map (\<lambda>e. (fst e, forget (snd e))) (AList.update k v es) =
   AList.update k (forget v) (map (\<lambda>e. (fst e, forget (snd e))) es)"
  by (induction es) auto

lemma forget_getFieldValue:
  "forget_model a = forget_model b \<Longrightarrow> forget (getFieldValue a f) = forget (getFieldValue b f)"
proof -
  assume h: "forget_model a = forget_model b"
  obtain ca fa sa where a: "a = Model ca fa sa" by (cases a)
  obtain cb fb sb where b: "b = Model cb fb sb" by (cases b)
  have g: "forget (getFieldValue (Model c fv sv) f) =
           (case fv of None \<Rightarrow> VUndefined
            | Some es \<Rightarrow> (case map_of (map (\<lambda>e. (fst e, forget (snd e))) es) (fname f) of
                           None \<Rightarrow> VUndefined | Some x \<Rightarrow> x))" for c fv sv
    by (auto simp: getFieldValue_def map_of_forget split: option.splits)
  from h a b show ?thesis
    unfolding a b g by (cases fa; cases fb) auto
qed

lemma store_back_forget:
  assumes "forget v' = forget (getFieldValue acc f)"
  shows "forget_model (store_back acc f v') = forget_model acc"
proof (cases acc)
  case (Model c fv sv)
  show ?thesis
  proof (cases fv)
    case None
    with Model show ?thesis by (simp add: store_back_def)
  next
    case (Some es)
    show ?thesis
    proof (cases "map_of es (fname f)")
      case None
      with Model Some show ?thesis by (simp add: store_back_def)
    next
      case old: (Some old)
      with Model Some assms have "forget v' = forget old" by (simp add: getFieldValue_def)
      moreover from old have
        "map_of (map (\<lambda>e. (fst e, forget (snd e))) es) (fname f) = Some (forget old)"
        by (simp add: map_of_forget)
      ultimately have "AList.update (fname f) (forget v') (map (\<lambda>e. (fst e, forget (snd e))) es) =
                       map (\<lambda>e. (fst e, forget (snd e))) es"
        by (simp add: update_triv)
      with Model Some old show ?thesis by (simp add: store_back_def map_forget_update)
    qed
  qed
qed

lemma forEachSubmodel_fields_forget:
  assumes "\<And>s s' r. s \<in> submodels this \<Longrightarrow> func s = Inr (s', r) \<Longrightarrow>
             forget_model s' = forget_model s"
    and "forget_model acc = forget_model this"
    and "forEachSubmodel_fields func this acc fs = Inr (acc', r)"
  shows "forget_model acc' = forget_model this"
  using assms(2,3)
proof (induction fs arbitrary: acc)
  case Nil
  then show ?case by simp
next
  case (Cons f fs)
  from Cons.prems(2) obtain v' rv where
    v: "findFromOneOrMany (getFieldValue this f) (submodel_finder func) = Inr (v', rv)"
    by (auto split: sum.splits)
  have "forget v' = forget (getFieldValue this f)"
    by (rule findFromOneOrMany_forget[OF _ v]) (auto dest: getFieldValue_submodels intro: assms(1))
  with forget_getFieldValue[OF Cons.prems(1), of f]
  have "forget v' = forget (getFieldValue acc f)" by simp
  from store_back_forget[OF this] Cons.prems(1)
  have sb: "forget_model (store_back acc f v') = forget_model this" by simp
  show ?case
  proof (cases "rv = VUndefined")
    case True
    with v Cons.prems(2) have "forEachSubmodel_fields func this (store_back acc f v') fs = Inr (acc', r)"
      by simp
    from Cons.IH[OF sb this] show ?thesis .
  next
    case False
    with v Cons.prems(2) sb show ?thesis by auto
  qed
qed

lemma commit_forget: "commit tab this = Inr this' \<Longrightarrow> forget_model this' = forget_model this"
proof (induction tab this arbitrary: this' rule: commit.induct)
  case (1 tab c fv sv)
  let ?func = "\<lambda>submodel. case commit tab submodel of
                  Inl e \<Rightarrow> Inl e | Inr s' \<Rightarrow> Inr (s', VUndefined)"
  from "1.prems" obtain r where
    t: "forEachSubmodel_fields ?func (Model c fv None) (Model c fv None) (cfields (tab c)) =
        Inr (this', r)"
    by (auto simp: forEachSubmodel_def split: sum.splits)
  have "forget_model s' = forget_model s"
    if "s \<in> submodels (Model c fv None)" and "?func s = Inr (s', r')" for s s' r'
    using "1.IH"[OF that(1)] that(2) by (auto split: sum.splits)
  from forEachSubmodel_fields_forget[OF this refl t] show ?case by simp
qed


subsection \<open>Assignment, rollback and commit\<close>

lemma fresh_getFieldValue: "fresh_model this \<Longrightarrow> fresh_value (getFieldValue this f)"
  by (cases this) (auto simp: getFieldValue_def split: option.splits dest!: map_of_SomeD)

lemma fresh_update:
  "\<forall>e \<in> set es. fresh_value (snd e) \<Longrightarrow> fresh_value v \<Longrightarrow>
   \<forall>e \<in> set (AList.update k v es). fresh_value (snd e)"
  by (induction es) auto

lemma rollback_restore:
  "restore this = Inr this1 \<Longrightarrow> restore this1 = Inr this1 \<Longrightarrow>
   rollback tab this = rollback tab this1"
  by (cases this; cases this1) simp

text \<open>What one assignment outside deserialization does to an instance.\<close>

lemma setFieldValue_result:
  assumes "setFieldValue this f v False = Inr this1"
  shows "\<exists>v'. createValue f v (saveFieldValue this f) False = Inr v' \<and>
              this1 = Model (cls this)
                        (Some (AList.update (fname f) v'
                                 (case fieldValues this of None \<Rightarrow> [] | Some fv \<Rightarrow> fv)))
                        (Some (AList.update (fname f) (getFieldValue this f)
                                 (case savedFieldValues this of None \<Rightarrow> [] | Some sv \<Rightarrow> sv)))"
  using assms by (auto simp: setFieldValue_def saveFieldValue_def Let_def split: sum.splits)

lemma getFieldValue_update [simp]:
  "getFieldValue (Model c (Some (AList.update (fname f) v es)) sv) f = v"
  by (simp add: getFieldValue_def update_conv')

text \<open>
  Rolling back an instance that was fresh before one or more assignments to one field:
  the snapshot of the field is written back and nothing else changes.
\<close>

lemma rollback_one_field:
  assumes "\<forall>e \<in> set es. fresh_value (snd e)" and "fresh_value old"
  shows "rollback tab (Model c (Some (AList.update k v es)) (Some [(k, old)])) =
         Inr (Model c (Some (AList.update k old es)) None)"
proof -
  let ?m1 = "Model c (Some (AList.update k v es)) (Some [(k, old)])"
  let ?m2 = "Model c (Some (AList.update k old es)) None"
  have r: "restore ?m1 = Inr ?m2" by (simp add: restore_def)
  from fresh_update[OF assms] have f: "fresh_model ?m2" by simp
  from rollback_restore[OF r restore_fresh[OF f]] rollback_fresh[OF f]
  show ?thesis by simp
qed

text \<open>
  Deserialization of a plain object records no change: the instance it returns has no
  snapshot map.
\<close>

lemma populate_deserializing:
  "populate tab True this es = Inr this' \<Longrightarrow> savedFieldValues this' = savedFieldValues this"
proof (induction es arbitrary: this)
  case Nil
  then show ?case by simp
next
  case (Cons e es)
  obtain n v where e: "e = (n, v)" by (cases e)
  have step: "savedFieldValues m = savedFieldValues this"
    if "setFieldValue this f v True = Inr m" for f m
    using that by (auto simp: setFieldValue_def split: sum.splits)
  from Cons.prems show ?case
    unfolding e
    by (auto split: option.splits sum.splits dest!: Cons.IH dest: step)
qed

lemma deserialize_records_no_change:
  assumes "deserialize tab c (VObj es) = Some (Inr this)"
  shows "savedFieldValues this = None \<and> isChanged tab this = Inr False"
proof -
  have u: "savedFieldValues this = None"
    if "construct_untagged tab c' (VObj es') True = Some (Inr this)" for c' es'
    using that populate_deserializing[of tab "Model c' None None" es' this]
    by (auto simp: construct_untagged_def finish_def split: if_splits sum.splits)
  from assms have "savedFieldValues this = None"
    unfolding deserialize_def construct_def
    by (auto split: option.splits jsval.splits sum.splits if_splits dest: u)
  then show ?thesis by (simp add: isChanged_saved)
qed

text \<open>
  C4. For every freshly deserialized instance: after mutating a field and calling
  \<open>rollback()\<close> the field has its value from before the mutation and \<open>isChanged()\<close> is
  false; after mutating the field again and calling \<open>commit()\<close>, \<open>isChanged()\<close> is false
  and the field still holds the value that the assignment stored (the value that
  \<open>createValue\<close> made of the assigned one; commit may only have cleared snapshots of
  submodels inside it).
\<close>

theorem rollback_then_commit:
  assumes "fresh_model this" and "setFieldValue this f v False = Inr this1"
  shows "\<exists>this2. rollback tab this1 = Inr this2 \<and>
                 getFieldValue this2 f = getFieldValue this f \<and>
                 isChanged tab this2 = Inr False \<and>
                 (\<forall>w this3. setFieldValue this2 f w False = Inr this3 \<longrightarrow>
                    (\<exists>this4. commit tab this3 = Inr this4 \<and>
                             isChanged tab this4 = Inr False \<and>
                             createValue f w (saveFieldValue this2 f) False =
                               Inr (getFieldValue this3 f) \<and>
                             forget (getFieldValue this4 f) = forget (getFieldValue this3 f)))"
proof -
  obtain c fv where shape: "this = Model c fv None"
    using assms(1) by (cases this) auto
  let ?es = "case fv of None \<Rightarrow> [] | Some es \<Rightarrow> es"
  let ?old = "getFieldValue this f"
  from assms(1) shape have es: "\<forall>e \<in> set ?es. fresh_value (snd e)"
    by (auto split: option.splits)
  from setFieldValue_result[OF assms(2)] shape obtain v' where
    this1: "this1 = Model c (Some (AList.update (fname f) v' ?es)) (Some [(fname f, ?old)])"
    by auto
  let ?this2 = "Model c (Some (AList.update (fname f) ?old ?es)) None"
  from rollback_one_field[OF es fresh_getFieldValue[OF assms(1)]] this1
  have rb: "rollback tab this1 = Inr ?this2" by simp
  have val: "getFieldValue ?this2 f = ?old" by simp
  have unchanged: "isChanged tab ?this2 = Inr False" by (simp add: isChanged_saved)
  have again: "\<exists>this4. commit tab this3 = Inr this4 \<and>
                       isChanged tab this4 = Inr False \<and>
                       createValue f w (saveFieldValue ?this2 f) False =
                         Inr (getFieldValue this3 f) \<and>
                       forget (getFieldValue this4 f) = forget (getFieldValue this3 f)"
    if set: "setFieldValue ?this2 f w False = Inr this3" for w this3
  proof -
    from commit_result[of tab this3] obtain this4 where
      c: "commit tab this3 = Inr this4" and sv: "savedFieldValues this4 = None" by blast
    from setFieldValue_result[OF set] have
      "createValue f w (saveFieldValue ?this2 f) False = Inr (getFieldValue this3 f)"
      by auto
    moreover from forget_getFieldValue[OF commit_forget[OF c]]
    have "forget (getFieldValue this4 f) = forget (getFieldValue this3 f)" .
    ultimately show ?thesis using c sv by (simp add: isChanged_saved)
  qed
  from rb val unchanged again show ?thesis by blast
qed


subsection \<open>The claims on instances\<close>

lemmas example_simps =
  example_classes_def example_registry_def plain_field_def
  deserialize_def construct_def construct_untagged_def finish_def applyDefaults_def
  getModel_def isOfType_def getField_def getFieldBySerializedName_def wire_name_def
  getFieldValue_def setFieldValue_def saveFieldValue_def restore_def
  forEachSubmodel_def findFromOneOrMany_def submodel_finder_def store_back_def
  isChanged_def fieldIsChanged_def

theorem rollback_then_commit_witness:
  "deserialize example_classes ''Child'' (VObj [(''_type'', VStr ''Child''), (''x'', VNum 0)]) =
     Some (Inr (Model ''Child'' (Some [(''x'', VNum 0)]) None)) \<and>
   fresh_model (Model ''Child'' (Some [(''x'', VNum 0)]) None) \<and>
   setFieldValue (Model ''Child'' (Some [(''x'', VNum 0)]) None) (plain_field ''x'') (VNum 1) False =
     Inr (Model ''Child'' (Some [(''x'', VNum 1)]) (Some [(''x'', VNum 0)])) \<and>
   rollback example_classes (Model ''Child'' (Some [(''x'', VNum 1)]) (Some [(''x'', VNum 0)])) =
     Inr (Model ''Child'' (Some [(''x'', VNum 0)]) None) \<and>
   isChanged example_classes (Model ''Child'' (Some [(''x'', VNum 0)]) None) = Inr False \<and>
   setFieldValue (Model ''Child'' (Some [(''x'', VNum 0)]) None) (plain_field ''x'') (VNum 2) False =
     Inr (Model ''Child'' (Some [(''x'', VNum 2)]) (Some [(''x'', VNum 0)])) \<and>
   commit example_classes (Model ''Child'' (Some [(''x'', VNum 2)]) (Some [(''x'', VNum 0)])) =
     Inr (Model ''Child'' (Some [(''x'', VNum 2)]) None) \<and>
   isChanged example_classes (Model ''Child'' (Some [(''x'', VNum 2)]) None) = Inr False"
proof -
  let ?m = "Model ''Child'' (Some [(''x'', VNum 0)]) None"
  let ?m1 = "Model ''Child'' (Some [(''x'', VNum 1)]) (Some [(''x'', VNum 0)])"
  let ?m3 = "Model ''Child'' (Some [(''x'', VNum 2)]) (Some [(''x'', VNum 0)])"
  have d: "deserialize example_classes ''Child'' (VObj [(''_type'', VStr ''Child''), (''x'', VNum 0)]) =
           Some (Inr ?m)"
    by (simp add: example_simps)
  have f: "fresh_model ?m" by simp
  have s1: "setFieldValue ?m (plain_field ''x'') (VNum 1) False = Inr ?m1"
    by (simp add: example_simps)
  have s3: "setFieldValue ?m (plain_field ''x'') (VNum 2) False = Inr ?m3"
    by (simp add: example_simps)
  have c: "commit example_classes ?m3 = Inr (Model ''Child'' (Some [(''x'', VNum 2)]) None)"
    by (simp add: example_simps)
  from rollback_then_commit[OF f s1, of example_classes] obtain this2 where
    r: "rollback example_classes ?m1 = Inr this2"
    and v: "getFieldValue this2 (plain_field ''x'') = getFieldValue ?m (plain_field ''x'')"
    and u: "isChanged example_classes this2 = Inr False"
    and a: "\<forall>w this3. setFieldValue this2 (plain_field ''x'') w False = Inr this3 \<longrightarrow>
              (\<exists>this4. commit example_classes this3 = Inr this4 \<and>
                        isChanged example_classes this4 = Inr False)"
    by blast
  have e: "rollback example_classes ?m1 = Inr ?m" by (simp add: example_simps)
  with r have t2: "this2 = ?m" by simp
  from a t2 s3 obtain this4 where c4: "commit example_classes ?m3 = Inr this4"
    and u4: "isChanged example_classes this4 = Inr False" by blast
  from c4 c have "this4 = Model ''Child'' (Some [(''x'', VNum 2)]) None"
    by (simp del: commit.simps)
  with u4 have u5: "isChanged example_classes (Model ''Child'' (Some [(''x'', VNum 2)]) None) = Inr False"
    by simp
  from u t2 have u2: "isChanged example_classes ?m = Inr False" by simp
  from d f s1 e u2 s3 c u5 show ?thesis by blast
qed









lemma applyDefaults_fields_saved:
  "applyDefaults_fields this fs = Some (Inr this') \<Longrightarrow>
   (savedFieldValues this = None) = (fieldValues this = None) \<Longrightarrow>
   (savedFieldValues this' = None) = (fieldValues this' = None)"
proof (induction this fs rule: applyDefaults_fields.induct)
  case (1 this)
  then show ?case by simp
next
  case (2 this f fs)
  have step: "(savedFieldValues m = None) = (fieldValues m = None)"
    if "setFieldValue this f v False = Inr m" for v m
    using setFieldValue_result[OF that] by auto
  from "2.prems" "2.IH" step show ?case
    by (auto split: dflt.splits jsval.splits if_splits option.splits sum.splits)
qed

text \<open>
  C3, as stated, fails: a default is assigned through \<open>_setFieldValue\<close> without
  \<open>isDeserializing\<close>, which records a snapshot. An instance of \<open>Counter\<close> constructed
  without input gets \<open>n = 5\<close> from the default and reports \<open>isChanged()\<close> true.
\<close>

theorem default_counterexample:
  "construct example_classes ''Counter'' VUndefined False =
     Some (Inr (Model ''Counter'' (Some [(''n'', VNum 5)]) (Some [(''n'', VUndefined)]))) \<and>
   isChanged example_classes
     (Model ''Counter'' (Some [(''n'', VNum 5)]) (Some [(''n'', VUndefined)])) = Inr True"
  by (simp add: example_simps)

text \<open>
  C3, amended. For a Model constructed without \<open>isDeserializing\<close> and without explicit
  values, the defaults applied after population are recorded as changes:
  \<open>isChanged()\<close> is true exactly when some field was filled by a default.
\<close>

theorem defaults_are_changes:
  assumes "object = VUndefined \<or> object = VObj []"
    and "construct tab c object False = Some (Inr this)"
  shows "isChanged tab this = Inr (fieldValues this \<noteq> None)"
proof -
  from assms have "applyDefaults_fields (Model c None None) (cfields (tab c)) = Some (Inr this)"
    by (auto simp: construct_def construct_untagged_def finish_def applyDefaults_def)
  from applyDefaults_fields_saved[OF this] show ?thesis by (simp add: isChanged_saved)
qed

theorem defaults_are_changes_witness:
  "construct example_classes ''Counter'' VUndefined False =
     Some (Inr (Model ''Counter'' (Some [(''n'', VNum 5)]) (Some [(''n'', VUndefined)]))) \<and>
   isChanged example_classes
     (Model ''Counter'' (Some [(''n'', VNum 5)]) (Some [(''n'', VUndefined)])) =
     Inr (fieldValues (Model ''Counter'' (Some [(''n'', VNum 5)]) (Some [(''n'', VUndefined)])) \<noteq> None)"
proof -
  have c: "construct example_classes ''Counter'' VUndefined False =
     Some (Inr (Model ''Counter'' (Some [(''n'', VNum 5)]) (Some [(''n'', VUndefined)])))"
    by (simp add: example_simps)
  from defaults_are_changes[OF _ c] c show ?thesis by blast
qed

text \<open>
  C9 at the input \<open>null\<close>: \<open>typeof null\<close> is \<open>'object'\<close>, the type check lets it pass and
  reading \<open>object._type\<close> throws a native TypeError, not the TypeMismatch error.
\<close>

theorem construct_null: "construct tab c VNull isDeserializing = Some (Inl NativeTypeError)"
  by (simp add: construct_def construct_untagged_def)

text \<open>The other inputs that C9 names do fail with TypeMismatch.\<close>

lemma construct_non_object:
  "object \<noteq> VUndefined \<Longrightarrow> typeof object \<noteq> ''object'' \<Longrightarrow>
   construct tab c object isDeserializing = Some (Inl TypeMismatch)"
  by (simp add: construct_def)

lemma construct_incompatible_model:
  "\<not> isOfType tab m c \<Longrightarrow> construct tab c (VModel m) isDeserializing = Some (Inl TypeMismatch)"
  by (simp add: construct_def construct_untagged_def)

text \<open>
  C1 at a \<open>Parent\<close> whose first field holds an unchanged \<open>Child\<close> and whose second field
  holds a \<open>Child\<close> with a pending snapshot: \<open>fieldIsChanged\<close> of the second field is true,
  but \<open>isChanged()\<close> of the parent is false. \<open>_isChanged\<close> returns what the search for
  submodels returns, which is never the value \<open>true\<close> that \<open>isChanged\<close> compares it with.
\<close>

theorem isChanged_misses_submodel:
  "setFieldValue (Model ''Child'' (Some [(''x'', VNum 1)]) None) (plain_field ''x'') (VNum 2) False =
     Inr (Model ''Child'' (Some [(''x'', VNum 2)]) (Some [(''x'', VNum 1)])) \<and>
   isChanged example_classes (Model ''Child'' (Some [(''x'', VNum 2)]) (Some [(''x'', VNum 1)])) =
     Inr True \<and>
   isChanged example_classes
     (Model ''Parent''
        (Some [(''first'', VModel (Model ''Child'' (Some [(''x'', VNum 1)]) None)),
               (''second'', VModel (Model ''Child'' (Some [(''x'', VNum 2)]) (Some [(''x'', VNum 1)])))])
        None) = Inr False \<and>
   fieldIsChanged example_classes
     (Model ''Parent''
        (Some [(''first'', VModel (Model ''Child'' (Some [(''x'', VNum 1)]) None)),
               (''second'', VModel (Model ''Child'' (Some [(''x'', VNum 2)]) (Some [(''x'', VNum 1)])))])
        None)
     (plain_field ''second'') = Inr True"
  by (simp add: example_simps)


subsection \<open>Serialization and deserialization\<close>



lemma field_selected_default [simp]: "field_selected tab this default_options f = Inr True"
  by (simp add: field_selected_def default_options_def)









text \<open>
  The operations of the fields matter as well: the field of \<open>Strict\<close> serializes its
  value but does not take it back.
\<close>

lemma round_trip_needs_fields:
  "serialize tagged_classes (Model ''Strict'' (Some [(''x'', VNum 1)]) None) default_options =
     Inr (VObj [(''_type'', VStr ''Strict''), (''x'', VNum 1)]) \<and>
   deserialize tagged_classes ''Strict'' (VObj [(''_type'', VStr ''Strict''), (''x'', VNum 1)]) =
     Some (Inl FieldError)"
  by (simp add: tagged_classes_def plain_field_def serialize_def wire_name_def getFieldValue_def
        deserialize_def construct_def construct_untagged_def getModel_def
        getFieldBySerializedName_def setFieldValue_def)




end
